theory Spec2Isabelle
  imports Complex_Main
begin

section \<open>Forward stepwise regression of the multiple-regression plugin\<close>

text \<open>
  A shallow embedding of \<^verbatim>\<open>gen_model\<close>, \<^verbatim>\<open>_gen_interaction_df\<close>,
  \<^verbatim>\<open>forward_selected\<close> and \<^verbatim>\<open>_model_warnings\<close> of
  \<^verbatim>\<open>webviz_subsurface/plugins/_multiple_regression.py\<close>.

  Conventions of the embedding:
  \<^item> \<^verbatim>\<open>float64\<close> values are idealised as \<^typ>\<open>real\<close>: rounding, infinities and NaN are
    outside the model (a division by zero is HOL's \<open>x / 0 = 0\<close>, where numpy gives
    \<^verbatim>\<open>inf\<close> or \<^verbatim>\<open>nan\<close>);
  \<^item> a pandas \<^verbatim>\<open>DataFrame\<close> is a record of its number of rows and its columns in order;
  \<^item> library routines the code calls (\<^verbatim>\<open>numpy.linalg.inv\<close>, the iteration order of a
    Python \<^verbatim>\<open>set\<close>, \<^verbatim>\<open>statsmodels.OLS(...).fit()\<close>) and the ambient warnings
    filters are parameters, collected in the record \<open>lib\<close>;
  \<^item> Python list objects that are shared between caller and callee live in a heap
    (a function from references to lists), data frames in a store of their own;
  \<^item> a raised exception is a value \<open>Inl e\<close>; a loop that does not return is \<open>None\<close>.
\<close>

subsection \<open>Strings: \<^verbatim>\<open>str.split("*")\<close>, \<^verbatim>\<open>"*".join\<close>, \<^verbatim>\<open>"*" in s\<close>\<close>

fun split_on :: "char \<Rightarrow> string \<Rightarrow> string list" where
  "split_on c [] = [[]]"
| "split_on c (x # xs) =
     (if x = c then [] # split_on c xs
      else (case split_on c xs of
              [] \<Rightarrow> [[x]]
            | p # ps \<Rightarrow> (x # p) # ps))"

definition split_star :: "string \<Rightarrow> string list" where
  "split_star name = split_on (CHR ''*'') name"

fun join_star :: "string list \<Rightarrow> string" where
  "join_star [] = []"
| "join_star [a] = a"
| "join_star (a # b # bs) = a @ ''*'' @ join_star (b # bs)"

definition has_star :: "string \<Rightarrow> bool" where
  "has_star name \<longleftrightarrow> CHR ''*'' \<in> set name"

subsection \<open>Data frames\<close>

record frame =
  nrows :: nat
  cols :: "(string \<times> real list) list"

definition columns :: "frame \<Rightarrow> string list" where
  "columns df = map fst (cols df)"

text \<open>A pandas frame is rectangular: every column has one value per row. Column names
  are looked up with \<open>map_of\<close>, which is what pandas does when they are unique.\<close>

definition wf_frame :: "frame \<Rightarrow> bool" where
  "wf_frame df \<longleftrightarrow> (\<forall>c \<in> set (cols df). length (snd c) = nrows df)"

text \<open>\<^verbatim>\<open>df.filter(items=items)\<close>: pandas reindexes to
  \<^verbatim>\<open>[r for r in items if r in labels]\<close>, so the result follows the order (and the
  repetitions) of \<open>items\<close> and silently drops names that are not columns.\<close>

definition filter_items :: "frame \<Rightarrow> string list \<Rightarrow> frame" where
  "filter_items df items =
     \<lparr>nrows = nrows df,
      cols = concat (map (\<lambda>r. case map_of (cols df) r of None \<Rightarrow> [] | Some c \<Rightarrow> [(r, c)]) items)\<rparr>"

text \<open>\<^verbatim>\<open>df.to_numpy()\<close>: the rows of the frame.\<close>

definition to_numpy :: "frame \<Rightarrow> real list list" where
  "to_numpy df = map (\<lambda>i. map (\<lambda>c. snd c ! i) (cols df)) [0..<nrows df]"

text \<open>\<^verbatim>\<open>df.product(axis=1)\<close>: the product of each row (1 for a frame without columns).\<close>

definition product_axis1 :: "frame \<Rightarrow> real list" where
  "product_axis1 df = map prod_list (to_numpy df)"

text \<open>\<^verbatim>\<open>df[name] = values\<close>: an existing column is overwritten in place, a new one is
  appended.\<close>

definition set_column :: "frame \<Rightarrow> string \<Rightarrow> real list \<Rightarrow> frame" where
  "set_column df name v =
     (if name \<in> set (columns df)
      then df\<lparr>cols := map (\<lambda>c. if fst c = name then (name, v) else c) (cols df)\<rparr>
      else df\<lparr>cols := cols df @ [(name, v)]\<rparr>)"

subsection \<open>Matrices (numpy arrays) as lists of rows\<close>

definition dot :: "real list \<Rightarrow> real list \<Rightarrow> real" where
  "dot u v = sum_list (map2 (*) u v)"

definition col :: "nat \<Rightarrow> real list list \<Rightarrow> real list" where
  "col j M = map (\<lambda>r. r ! j) M"

text \<open>\<open>mat_T m M\<close> is \<^verbatim>\<open>M.T\<close> for a matrix with \<open>m\<close> columns; \<open>mat_mul m A B\<close> is
  \<^verbatim>\<open>A @ B\<close> where \<open>B\<close> has \<open>m\<close> columns; \<open>vec_mat m v B\<close> is \<^verbatim>\<open>v @ B\<close> for a vector
  \<open>v\<close>; \<open>mat_vec A v\<close> is \<^verbatim>\<open>A @ v\<close>.\<close>

definition mat_T :: "nat \<Rightarrow> real list list \<Rightarrow> real list list" where
  "mat_T m M = map (\<lambda>j. col j M) [0..<m]"

definition vec_mat :: "nat \<Rightarrow> real list \<Rightarrow> real list list \<Rightarrow> real list" where
  "vec_mat m v B = map (\<lambda>j. dot v (col j B)) [0..<m]"

definition mat_mul :: "nat \<Rightarrow> real list list \<Rightarrow> real list list \<Rightarrow> real list list" where
  "mat_mul m A B = map (\<lambda>r. vec_mat m r B) A"

definition mat_vec :: "real list list \<Rightarrow> real list \<Rightarrow> real list" where
  "mat_vec A v = map (\<lambda>r. dot r v) A"

subsection \<open>The library the code calls\<close>

text \<open>What \<^verbatim>\<open>sm.OLS(endog, exog).fit()\<close> does, as far as the caller can tell: it returns
  a fitted model, raises an exception (a subclass of \<^verbatim>\<open>Exception\<close>, named by its
  message), or calls \<^verbatim>\<open>warnings.warn\<close> with some category and, unless the active
  filter turns the warning into an error, goes on.\<close>

datatype category = RuntimeWarning | UserWarning | OtherWarning

datatype action = Error | Ignore | Default

datatype 'm run = Returns 'm | Raises string | Warns category "'m run"

record 'm lib =
  la_inv :: "real list list \<Rightarrow> real list list option"
  set_iter :: "string list \<Rightarrow> string list"
  ols_fit :: "real list \<Rightarrow> frame \<Rightarrow> 'm run"
  warn_filters :: "(action \<times> category) list"

text \<open>
  \<^item> \<open>la_inv\<close> is \<^verbatim>\<open>numpy.linalg.inv\<close>: \<open>None\<close> stands for \<^verbatim>\<open>LinAlgError\<close>, and the
    result has the shape of the argument;
  \<^item> \<open>set_iter xs\<close> is the order in which Python iterates over a set built from the
    distinct elements \<open>xs\<close>: a permutation of \<open>xs\<close> that depends on the hashes of the
    strings, hence on the hash seed of the process;
  \<^item> \<open>ols_fit endog exog\<close> is the behaviour of \<^verbatim>\<open>sm.OLS(endog, exog).fit()\<close>;
  \<^item> \<open>warn_filters\<close> is the warnings filter list of the process when the code is
    entered (\<^verbatim>\<open>warnings.catch_warnings()\<close> works on a copy of it).
\<close>

definition set_order :: "(string list \<Rightarrow> string list) \<Rightarrow> bool" where
  "set_order f \<longleftrightarrow> (\<forall>xs. distinct xs \<longrightarrow> distinct (f xs) \<and> set (f xs) = set xs)"

subsection \<open>\<^verbatim>\<open>_model_warnings\<close>\<close>

text \<open>\<^verbatim>\<open>warnings.filterwarnings(action, category=c)\<close> puts the entry in front of the
  filter list; the first entry whose category matches decides, and a warning that no
  entry matches is shown and the computation goes on.\<close>

definition filterwarnings :: "action \<Rightarrow> category \<Rightarrow> (action \<times> category) list \<Rightarrow> (action \<times> category) list" where
  "filterwarnings a c filters = (a, c) # filters"

fun filter_action :: "(action \<times> category) list \<Rightarrow> category \<Rightarrow> action" where
  "filter_action [] c = Default"
| "filter_action ((a, c') # fs) c = (if c' = c then a else filter_action fs c)"

datatype exn = Exception string | WarningAsError category

fun run_with :: "(action \<times> category) list \<Rightarrow> 'm run \<Rightarrow> exn + 'm" where
  "run_with fs (Returns m) = Inr m"
| "run_with fs (Raises msg) = Inl (Exception msg)"
| "run_with fs (Warns c k) =
     (case filter_action fs c of
        Error \<Rightarrow> Inl (WarningAsError c)
      | Ignore \<Rightarrow> run_with fs k
      | Default \<Rightarrow> run_with fs k)"

text \<open>\<^verbatim>\<open>design_matrix["response"]\<close> raises \<^verbatim>\<open>KeyError\<close> inside the \<^verbatim>\<open>try\<close> when the
  column is missing; \<^verbatim>\<open>design_matrix.drop(columns="response")\<close> is the frame without it.\<close>

definition drop_column :: "frame \<Rightarrow> string \<Rightarrow> frame" where
  "drop_column df name = df\<lparr>cols := filter (\<lambda>c. fst c \<noteq> name) (cols df)\<rparr>"

definition model_warnings_filters :: "(action \<times> category) list \<Rightarrow> (action \<times> category) list" where
  "model_warnings_filters outer =
     filterwarnings Ignore UserWarning (filterwarnings Error RuntimeWarning outer)"

definition ols_attempt :: "'m lib \<Rightarrow> frame \<Rightarrow> exn + 'm" where
  "ols_attempt L design_matrix =
     (case map_of (cols design_matrix) ''response'' of
        None \<Rightarrow> Inl (Exception ''KeyError'')
      | Some endog \<Rightarrow>
          run_with (model_warnings_filters (warn_filters L))
            (ols_fit L endog (drop_column design_matrix ''response'')))"

text \<open>\<^verbatim>\<open>except (Exception, RuntimeWarning)\<close> catches whatever the \<^verbatim>\<open>try\<close> raised and
  returns \<^verbatim>\<open>None\<close>; otherwise the model is returned.\<close>

definition model_warnings :: "'m lib \<Rightarrow> frame \<Rightarrow> 'm option" where
  "model_warnings L design_matrix =
     (case ols_attempt L design_matrix of
        Inl e \<Rightarrow> None
      | Inr model \<Rightarrow> Some model)"

subsection \<open>\<^verbatim>\<open>forward_selected\<close>: scoring one candidate\<close>

text \<open>The body of \<^verbatim>\<open>for candidate in remaining\<close> ends in one of three ways:
  \<^verbatim>\<open>continue\<close> after \<^verbatim>\<open>LinAlgError\<close>, the \<^verbatim>\<open>return\<close> of the degrees-of-freedom
  guard, or a score appended to \<^verbatim>\<open>scores_with_candidates\<close>.\<close>

datatype fit = LinAlgError | DofReturn | Scored real

definition current_model_of :: "'m lib \<Rightarrow> string list \<Rightarrow> string \<Rightarrow> string list" where
  "current_model_of L selected candidate =
     (if has_star candidate
      then selected @ [candidate] @
           set_iter L (filter (\<lambda>b. b \<notin> set selected) (remdups (split_star candidate)))
      else selected @ [candidate])"

definition design_X :: "frame \<Rightarrow> string list \<Rightarrow> real list list" where
  "design_X data current_model =
     map (\<lambda>r. r @ [1]) (to_numpy (filter_items data current_model))"

definition R_2_adj :: "real \<Rightarrow> real \<Rightarrow> nat \<Rightarrow> nat \<Rightarrow> real" where
  "R_2_adj SS_RES SST n p =
     1 - (1 - (SS_RES / SST)) * (real_of_int (int n - 1) / real_of_int (int n - int p - 1))"

text \<open>\<open>n_predictors\<close> is \<^verbatim>\<open>p = X.shape[1]\<close>, read before the column of ones is
  appended; \<open>normal_matrix\<close> is \<^verbatim>\<open>X.T @ X\<close> after it.\<close>

definition n_predictors :: "frame \<Rightarrow> string list \<Rightarrow> nat" where
  "n_predictors data current_model = length (cols (filter_items data current_model))"

definition normal_matrix :: "frame \<Rightarrow> string list \<Rightarrow> real list list" where
  "normal_matrix data current_model =
     (let p = n_predictors data current_model;
          X = design_X data current_model
      in mat_mul (p + 1) (mat_T (p + 1) X) X)"

definition fit_candidate ::
  "'m lib \<Rightarrow> frame \<Rightarrow> real list \<Rightarrow> real \<Rightarrow> real \<Rightarrow> string list \<Rightarrow> string \<Rightarrow> fit" where
  "fit_candidate L data y y_mean SST selected candidate =
     (let n = length y;
          current_model = current_model_of L selected candidate;
          p = n_predictors data current_model;
          X = design_X data current_model;
          X_T = mat_T (p + 1) X
      in case la_inv L (normal_matrix data current_model) of
           None \<Rightarrow> LinAlgError
         | Some XtX_inv \<Rightarrow>
             (let beta = mat_vec (mat_mul n XtX_inv X_T) y
              in if int n - int p - 1 < 1 then DofReturn
                 else (let f_vec = vec_mat n beta X_T;
                           SS_RES = sum_list (map (\<lambda>f. (f - y_mean) ^ 2) f_vec)
                       in Scored (R_2_adj SS_RES SST n p))))"

text \<open>The \<^verbatim>\<open>for\<close> loop over \<^verbatim>\<open>remaining\<close>, in the iteration order of the set;
  \<open>None\<close> is the \<^verbatim>\<open>return\<close> from inside the loop.\<close>

fun score_candidates ::
  "'m lib \<Rightarrow> frame \<Rightarrow> real list \<Rightarrow> real \<Rightarrow> real \<Rightarrow> string list \<Rightarrow> string list \<Rightarrow>
   (real \<times> string) list \<Rightarrow> (real \<times> string) list option" where
  "score_candidates L data y y_mean SST selected [] scores = Some scores"
| "score_candidates L data y y_mean SST selected (candidate # rest) scores =
     (case fit_candidate L data y y_mean SST selected candidate of
        LinAlgError \<Rightarrow> score_candidates L data y y_mean SST selected rest scores
      | DofReturn \<Rightarrow> None
      | Scored r \<Rightarrow>
          score_candidates L data y y_mean SST selected rest (scores @ [(r, candidate)]))"

subsection \<open>\<^verbatim>\<open>forward_selected\<close>: the search\<close>

datatype py_error = IndexError | KeyError

type_synonym ref = nat

type_synonym heap = "ref \<Rightarrow> string list"

text \<open>The variables of the \<^verbatim>\<open>while\<close> loop. \<^verbatim>\<open>selected\<close> is not among them: it
  is the reference \<^verbatim>\<open>force_in\<close> (\<^verbatim>\<open>selected = force_in\<close> copies no list), so its
  content is \<open>lists s force_in\<close>. \<^verbatim>\<open>remaining\<close> is a Python set, kept as the list
  of its elements in iteration order; \<^verbatim>\<open>remove\<close> leaves the order of the others.\<close>

record state =
  lists :: heap
  remaining :: "string list"
  current_score :: real
  best_new_score :: real

text \<open>\<^verbatim>\<open>scores_with_candidates.sort(key=lambda x: x[0])\<close> is a stable sort on the score
  alone; \<^verbatim>\<open>pop()\<close> takes the last element and raises \<^verbatim>\<open>IndexError\<close> on an empty
  list.\<close>

definition sort_scores :: "(real \<times> string) list \<Rightarrow> (real \<times> string) list" where
  "sort_scores scores = sort_key fst scores"

definition pop :: "'a list \<Rightarrow> py_error + 'a" where
  "pop xs = (if xs = [] then Inl IndexError else Inr (last xs))"

text \<open>\<^verbatim>\<open>model_df = data.filter(items=selected)\<close> with the columns \<^verbatim>\<open>Intercept\<close> and
  \<^verbatim>\<open>response\<close> assigned.\<close>

definition model_df :: "frame \<Rightarrow> string list \<Rightarrow> real list \<Rightarrow> frame" where
  "model_df data selected y =
     set_column
       (set_column (filter_items data selected) ''Intercept'' (replicate (length y) 1))
       ''response'' y"

text \<open>The loop over \<^verbatim>\<open>best_candidate.split("*")\<close> of the commit.\<close>

fun add_base_features :: "ref \<Rightarrow> string list \<Rightarrow> state \<Rightarrow> state" where
  "add_base_features sel [] s = s"
| "add_base_features sel (base_feature # bs) s =
     (let s1 = (if base_feature \<in> set (remaining s)
                then s\<lparr>remaining := remove1 base_feature (remaining s)\<rparr> else s);
          s2 = (if base_feature \<notin> set (lists s1 sel)
                then s1\<lparr>lists := (lists s1)(sel := lists s1 sel @ [base_feature])\<rparr> else s1)
      in add_base_features sel bs s2)"

datatype 'm step = Continue state | Return heap "'m option" | Raise heap py_error

text \<open>The commit: \<^verbatim>\<open>remaining.remove\<close> raises \<^verbatim>\<open>KeyError\<close> for an element that is
  not in the set.\<close>

definition commit :: "ref \<Rightarrow> real \<Rightarrow> string \<Rightarrow> state \<Rightarrow> 'm step" where
  "commit sel best best_candidate s =
     (let s1 = (if has_star best_candidate
                then add_base_features sel (split_star best_candidate) s else s)
      in if best_candidate \<notin> set (remaining s1) then Raise (lists s1) KeyError
         else Continue (s1\<lparr>remaining := remove1 best_candidate (remaining s1),
                            lists := (lists s1)(sel := lists s1 sel @ [best_candidate]),
                            current_score := best\<rparr>))"

text \<open>One pass of the body of the \<^verbatim>\<open>while\<close> loop.\<close>

definition forward_round ::
  "'m lib \<Rightarrow> frame \<Rightarrow> real list \<Rightarrow> real \<Rightarrow> real \<Rightarrow> ref \<Rightarrow> state \<Rightarrow> 'm step" where
  "forward_round L data y y_mean SST sel s =
     (case score_candidates L data y y_mean SST (lists s sel) (remaining s) [] of
        None \<Rightarrow> Return (lists s) (model_warnings L (model_df data (lists s sel) y))
      | Some scores_with_candidates \<Rightarrow>
          (case pop (sort_scores scores_with_candidates) of
             Inl e \<Rightarrow> Raise (lists s) e
           | Inr (best, best_candidate) \<Rightarrow>
               (let s1 = s\<lparr>best_new_score := best\<rparr>
                in if current_score s1 < best
                   then commit sel best best_candidate s1
                   else Continue s1)))"

definition loop_cond :: "ref \<Rightarrow> int \<Rightarrow> state \<Rightarrow> bool" where
  "loop_cond sel maxvars s \<longleftrightarrow>
     remaining s \<noteq> [] \<and> current_score s = best_new_score s \<and>
     int (length (lists s sel)) < maxvars"

text \<open>The \<^verbatim>\<open>while\<close> loop and the final fit. The result is the heap as the call
  leaves it, with the value returned or the exception raised.\<close>

partial_function (option) forward_loop ::
  "'m lib \<Rightarrow> frame \<Rightarrow> real list \<Rightarrow> real \<Rightarrow> real \<Rightarrow> ref \<Rightarrow> int \<Rightarrow> state \<Rightarrow>
   (heap \<times> (py_error + 'm option)) option" where
  "forward_loop L data y y_mean SST sel maxvars s =
     (if loop_cond sel maxvars s
      then (case forward_round L data y y_mean SST sel s of
              Continue s' \<Rightarrow> forward_loop L data y y_mean SST sel maxvars s'
            | Return h r \<Rightarrow> Some (h, Inr r)
            | Raise h e \<Rightarrow> Some (h, Inl e))
      else Some (lists s, Inr (model_warnings L (model_df data (lists s sel) y))))"

declare forward_loop.simps [code]

definition mean :: "real list \<Rightarrow> real" where
  "mean y = sum_list y / real (length y)"

definition total_sum_of_squares :: "real list \<Rightarrow> real" where
  "total_sum_of_squares y = sum_list (map (\<lambda>v. (v - mean y) ^ 2) y)"

definition initial_state :: "'m lib \<Rightarrow> heap \<Rightarrow> frame \<Rightarrow> string \<Rightarrow> ref \<Rightarrow> state" where
  "initial_state L h data response force_in =
     \<lparr>lists = h,
      remaining = set_iter L
        (filter (\<lambda>c. c \<notin> set (h force_in @ [response])) (remdups (columns data))),
      current_score = 0,
      best_new_score = 0\<rparr>"

definition forward_selected ::
  "'m lib \<Rightarrow> heap \<Rightarrow> frame \<Rightarrow> string \<Rightarrow> ref \<Rightarrow> int \<Rightarrow> (heap \<times> (py_error + 'm option)) option" where
  "forward_selected L h data response force_in maxvars =
     (case map_of (cols data) response of
        None \<Rightarrow> Some (h, Inl KeyError)
      | Some y \<Rightarrow>
          forward_loop L data y (mean y) (total_sum_of_squares y) force_in maxvars
            (initial_state L h data response force_in))"

subsection \<open>\<^verbatim>\<open>_gen_interaction_df\<close> and \<^verbatim>\<open>gen_model\<close>\<close>

text \<open>\<^verbatim>\<open>itertools.combinations(xs, k)\<close>: the subsequences of length \<open>k\<close>, in
  lexicographic order of their positions.\<close>

fun combinations :: "'a list \<Rightarrow> nat \<Rightarrow> 'a list list" where
  "combinations xs 0 = [[]]"
| "combinations [] (Suc k) = []"
| "combinations (x # xs) (Suc k) = map ((#) x) (combinations xs k) @ combinations xs (Suc k)"

text \<open>Data frames are objects: a store maps references to frames, and references below
  \<open>next_ref\<close> are the ones in use. \<^verbatim>\<open>df.copy()\<close> allocates a new frame.\<close>

record store =
  frames :: "ref \<Rightarrow> frame"
  next_ref :: ref

definition copy_frame :: "store \<Rightarrow> ref \<Rightarrow> store \<times> ref" where
  "copy_frame st df =
     (st\<lparr>frames := (frames st)(next_ref st := frames st df), next_ref := Suc (next_ref st)\<rparr>,
      next_ref st)"

text \<open>The first loop: \<^verbatim>\<open>range(1, degree+1)\<close> is \<open>[1..<nat (degree + 1)]\<close>, empty when
  \<open>degree < 1\<close>.\<close>

definition name_combinations :: "frame \<Rightarrow> string \<Rightarrow> int \<Rightarrow> string list" where
  "name_combinations newdf response degree =
     concat (map (\<lambda>i. map join_star (combinations (columns (drop_column newdf response)) i))
                 [1..<nat (degree + 1)])"

text \<open>The second loop. \<^verbatim>\<open>name.split("*")\<close> is never an empty list, so the test
  always holds; it is kept as the code has it.\<close>

fun add_products :: "frame \<Rightarrow> string list \<Rightarrow> frame" where
  "add_products newdf [] = newdf"
| "add_products newdf (name # names) =
     add_products
       (if split_star name \<noteq> []
        then set_column newdf name (product_axis1 (filter_items newdf (split_star name)))
        else newdf)
       names"

text \<open>\<^verbatim>\<open>newdf.drop(columns=response)\<close> raises \<^verbatim>\<open>KeyError\<close> when the column is
  missing; it is evaluated once per pass of the first loop, so not at all when
  \<open>degree < 1\<close>.\<close>

definition gen_interaction_df :: "store \<Rightarrow> ref \<Rightarrow> string \<Rightarrow> int \<Rightarrow> store \<times> (py_error + ref)" where
  "gen_interaction_df st df response degree =
     (let (st1, newdf) = copy_frame st df
      in if 1 \<le> degree \<and> response \<notin> set (columns (frames st1 newdf))
         then (st1, Inl KeyError)
         else (st1\<lparr>frames := (frames st1)
                   (newdf := add_products (frames st1 newdf)
                      (name_combinations (frames st1 newdf) response degree))\<rparr>,
               Inr newdf))"

text \<open>\<^verbatim>\<open>gen_model\<close>; the memoising decorator is left out. \<^verbatim>\<open>if interaction_degree:\<close>
  is the test \<open>interaction_degree \<noteq> 0\<close>.\<close>

definition gen_model ::
  "'m lib \<Rightarrow> store \<Rightarrow> heap \<Rightarrow> ref \<Rightarrow> string \<Rightarrow> int \<Rightarrow> ref \<Rightarrow> int \<Rightarrow>
   (store \<times> heap \<times> (py_error + 'm option)) option" where
  "gen_model L st h df response max_vars force_in interaction_degree =
     (if interaction_degree \<noteq> 0
      then (case gen_interaction_df st df response (interaction_degree + 1) of
              (st1, Inl e) \<Rightarrow> Some (st1, h, Inl e)
            | (st1, Inr newdf) \<Rightarrow>
                map_option (\<lambda>(h1, r). (st1, h1, r))
                  (forward_selected L h (frames st1 newdf) response force_in max_vars))
      else map_option (\<lambda>(h1, r). (st, h1, r))
             (forward_selected L h (frames st df) response force_in max_vars))"

text \<open>Default arguments. The list \<^verbatim>\<open>[]\<close> in \<^verbatim>\<open>force_in: list=[]\<close> is one object,
  made when the \<^verbatim>\<open>def\<close> is executed and kept by the function; a call that leaves
  the argument out receives a reference to it.\<close>

definition forward_selected_default_force_in :: ref where
  "forward_selected_default_force_in = 0"

definition heap_at_import :: heap where
  "heap_at_import = (\<lambda>r. [])"

definition forward_selected_call ::
  "'m lib \<Rightarrow> heap \<Rightarrow> frame \<Rightarrow> string \<Rightarrow> ref option \<Rightarrow> int option \<Rightarrow>
   (heap \<times> (py_error + 'm option)) option" where
  "forward_selected_call L h data response force_in maxvars =
     forward_selected L h data response
       (case force_in of None \<Rightarrow> forward_selected_default_force_in | Some r \<Rightarrow> r)
       (case maxvars of None \<Rightarrow> 5 | Some m \<Rightarrow> m)"

subsection \<open>A concrete library, to run the model on examples\<close>

text \<open>The exact inverse of a real matrix, by cofactors: \<open>None\<close> when the determinant is
  zero. The set order \<open>\<lambda>xs. xs\<close> iterates in insertion order, \<open>rev\<close> in the opposite
  order. The toy fit returns the names of the columns it is given.\<close>

definition del :: "nat \<Rightarrow> 'a list \<Rightarrow> 'a list" where
  "del j xs = take j xs @ drop (Suc j) xs"

function det :: "real list list \<Rightarrow> real" where
  "det [] = 1"
| "det (r # rs) =
     sum_list (map (\<lambda>j. (- 1) ^ j * (r ! j) * det (map (del j) rs)) [0..<length r])"
  by pat_completeness auto
termination
  by (relation "measure length") auto

definition exact_inv :: "real list list \<Rightarrow> real list list option" where
  "exact_inv M =
     (let d = det M; n = length M
      in if d = 0 then None
         else Some (map (\<lambda>i. map (\<lambda>j. (- 1) ^ (i + j) * det (map (del i) (del j M)) / d)
                                 [0..<n]) [0..<n]))"

definition example_lib :: "(string list \<Rightarrow> string list) \<Rightarrow> string list lib" where
  "example_lib order =
     \<lparr>la_inv = exact_inv, set_iter = order,
      ols_fit = (\<lambda>endog exog. Returns (columns exog)), warn_filters = []\<rparr>"

subsection \<open>The states a search goes through\<close>

text \<open>\<open>rounds \<dots> s s'\<close>: the \<^verbatim>\<open>while\<close> loop, started in state \<open>s\<close>, is at its head in
  state \<open>s'\<close> after some number of passes.\<close>

inductive rounds ::
  "'m lib \<Rightarrow> frame \<Rightarrow> real list \<Rightarrow> real \<Rightarrow> real \<Rightarrow> ref \<Rightarrow> int \<Rightarrow> state \<Rightarrow> state \<Rightarrow> bool"
  for L data y y_mean SST sel maxvars s
where
  start: "rounds L data y y_mean SST sel maxvars s s"
| pass: "rounds L data y y_mean SST sel maxvars s s1 \<Longrightarrow>
         loop_cond sel maxvars s1 \<Longrightarrow>
         forward_round L data y y_mean SST sel s1 = Continue s2 \<Longrightarrow>
         rounds L data y y_mean SST sel maxvars s s2"

subsection \<open>Notions of the specification\<close>

text \<open>The adjusted \<open>R\<^sup>2\<close> as the specification words it, for a design matrix \<open>X\<close> (the
  intercept column included), coefficients \<open>\<beta>\<close> and response \<open>y\<close>: the fitted values are
  \<open>X\<beta>\<close>, and \<open>p\<close> counts the columns of \<open>X\<close> other than the intercept.\<close>

definition spec_adjusted_R2 :: "real list list \<Rightarrow> real list \<Rightarrow> real list \<Rightarrow> real" where
  "spec_adjusted_R2 X \<beta> y =
     (let n = length y;
          p = length (hd X) - 1;
          y_hat = mat_vec X \<beta>;
          y_bar = sum_list y / real n;
          SS_res = (\<Sum>f\<leftarrow>y_hat. (f - y_bar)\<^sup>2);
          SST = (\<Sum>v\<leftarrow>y. (v - y_bar)\<^sup>2)
      in 1 - (1 - SS_res / SST) * (real (n - 1) / real (n - p - 1)))"

text \<open>A fit fails numerically when it raises an exception or emits a
  \<^verbatim>\<open>RuntimeWarning\<close>; \<open>fit_value\<close> is the model it would hand back if every warning
  were only shown.\<close>

fun fit_fails :: "'m run \<Rightarrow> bool" where
  "fit_fails (Returns m) = False"
| "fit_fails (Raises msg) = True"
| "fit_fails (Warns c k) = (c = RuntimeWarning \<or> fit_fails k)"

fun fit_value :: "'m run \<Rightarrow> 'm option" where
  "fit_value (Returns m) = Some m"
| "fit_value (Raises msg) = None"
| "fit_value (Warns c k) = fit_value k"

subsection \<open>Notions used in the statements and proofs\<close>

text \<open>The entry a candidate contributes to \<^verbatim>\<open>scores_with_candidates\<close>.\<close>

definition scored_of :: "'m lib \<Rightarrow> frame \<Rightarrow> real list \<Rightarrow> real \<Rightarrow> real \<Rightarrow> string list \<Rightarrow> string \<Rightarrow> (real \<times> string) list" where
  "scored_of L data y ym SST selected c =
     (case fit_candidate L data y ym SST selected c of Scored r \<Rightarrow> [(r, c)] | _ \<Rightarrow> [])"

text \<open>The names an interaction term is made of (none for a plain column).\<close>

definition base_features :: "string \<Rightarrow> string list" where
  "base_features candidate = (if has_star candidate then split_star candidate else [])"

text \<open>What holds of \<^verbatim>\<open>remaining\<close> and \<^verbatim>\<open>selected\<close> at the head of the loop: the
  candidate pool has no repetition, shares no name with the selection, and holds
  columns of the data only.\<close>

definition search_inv :: "frame \<Rightarrow> ref \<Rightarrow> state \<Rightarrow> bool" where
  "search_inv data sel s \<longleftrightarrow>
     distinct (remaining s) \<and> set (remaining s) \<inter> set (lists s sel) = {} \<and>
     set (remaining s) \<subseteq> set (columns data)"

text \<open>The columns the specification expects from the expansion: for each combination
  one column, named by the joined names, whose value in row \<open>i\<close> is the product of the
  values of the combined columns in row \<open>i\<close>; the combinations are those of \<open>2\<close> up to
  \<open>k + 1\<close> columns other than the response.\<close>

text \<open>A name that is not a column counts as \<open>1\<close>, the value of an empty product.\<close>

definition column_value :: "frame \<Rightarrow> string \<Rightarrow> nat \<Rightarrow> real" where
  "column_value df name i = (case map_of (cols df) name of None \<Rightarrow> 1 | Some v \<Rightarrow> v ! i)"

definition interaction_columns :: "frame \<Rightarrow> string list list \<Rightarrow> (string \<times> real list) list" where
  "interaction_columns df combs =
     map (\<lambda>comb. (join_star comb,
                   map (\<lambda>i. prod_list (map (\<lambda>c. column_value df c i) comb)) [0..<nrows df]))
         combs"

definition non_response_columns :: "frame \<Rightarrow> string \<Rightarrow> string list" where
  "non_response_columns df response = filter (\<lambda>c. c \<noteq> response) (columns df)"

definition interaction_combinations :: "frame \<Rightarrow> string \<Rightarrow> int \<Rightarrow> string list list" where
  "interaction_combinations df response k =
     concat (map (combinations (non_response_columns df response)) [2..<nat k + 2])"

subsection \<open>Example inputs\<close>

definition singular_data :: frame where
  "singular_data = \<lparr>nrows = 3, cols = [(''y'', [1, 2, 3]), (''x'', [1, 1, 1])]\<rparr>"

definition tie_data :: frame where
  "tie_data = \<lparr>nrows = 5, cols = [(''y'', [1, 0, - 1, 0, 0]), (''x'', [1, - 1, 0, 0, 0])]\<rparr>"

definition twin_data :: frame where
  "twin_data = \<lparr>nrows = 5, cols = [(''y'', [1, 2, 3, 4, 5]), (''x1'', [1, 2, 3, 4, 6]),
                                   (''x2'', [1, 2, 3, 4, 6])]\<rparr>"

definition dof_data :: frame where
  "dof_data = \<lparr>nrows = 3, cols = [(''y'', [3, 0, 0]), (''a'', [1, 0, 0]), (''b'', [0, 1, 0]),
                                  (''a*b'', [0, 0, 0])]\<rparr>"

definition inter_data :: frame where
  "inter_data = \<lparr>nrows = 5, cols = [(''y'', [0, 0, 0, 1, 2]), (''a'', [0, 1, 0, 1, 2]),
                                    (''b'', [0, 0, 1, 1, 1]), (''a*b'', [0, 0, 0, 1, 2])]\<rparr>"

definition ok_data :: frame where
  "ok_data = \<lparr>nrows = 5, cols = [(''y'', [1, 2, 3, 4, 5]), (''x1'', [1, 2, 3, 4, 6]),
                                 (''x2'', [1, 0, 1, 0, 1])]\<rparr>"

definition warning_lib :: "string list lib" where
  "warning_lib =
     \<lparr>la_inv = exact_inv, set_iter = (\<lambda>xs. xs),
      ols_fit = (\<lambda>endog exog. Warns UserWarning (Warns RuntimeWarning (Returns (columns exog)))),
      warn_filters = []\<rparr>"

text \<open>The state of the search on \<open>dof_data\<close> once \<open>a\<close> has been accepted.\<close>

definition dof_state :: state where
  "dof_state = \<lparr>lists = (\<lambda>r. [''a'']), remaining = [''b'', ''a*b''],
                 current_score = 1, best_new_score = 1\<rparr>"

text \<open>A frame one of whose columns has a name with the separator, and a plain one, each
  the only frame of a store.\<close>

definition starred_data :: frame where
  "starred_data = \<lparr>nrows = 1, cols = [(''y'', [1]), (''a'', [2]), (''b'', [3]), (''a*b'', [7])]\<rparr>"

definition starred_store :: store where
  "starred_store = \<lparr>frames = (\<lambda>r. starred_data), next_ref = 1\<rparr>"

definition plain_data :: frame where
  "plain_data = \<lparr>nrows = 2, cols = [(''y'', [1, 1]), (''a'', [2, 3]), (''b'', [5, 7]), (''c'', [1, 2])]\<rparr>"

definition plain_store :: store where
  "plain_store = \<lparr>frames = (\<lambda>r. plain_data), next_ref = 1\<rparr>"

section \<open>Properties\<close>

subsection \<open>Scoring rounds\<close>

lemma score_candidates_all_singular:
  "\<forall>c \<in> set rem. fit_candidate L data y ym SST selected c = LinAlgError \<Longrightarrow>
   score_candidates L data y ym SST selected rem scores = Some scores"
  by (induction rem) auto

lemma forward_round_all_singular:
  assumes "\<forall>c \<in> set (remaining s). fit_candidate L data y ym SST (lists s sel) c = LinAlgError"
  shows "forward_round L data y ym SST sel s = Raise (lists s) IndexError"
  using score_candidates_all_singular [OF assms, of "[]"]
  by (simp add: forward_round_def pop_def sort_scores_def)

text \<open>A pass that leaves the state as it found it is repeated for ever.\<close>

lemma forward_loop_stuck:
  assumes "loop_cond sel maxvars s" and "forward_round L data y ym SST sel s = Continue s"
  shows "forward_loop L data y ym SST sel maxvars s = None"
proof (rule ccontr)
  assume "forward_loop L data y ym SST sel maxvars s \<noteq> None"
  then obtain r where "forward_loop L data y ym SST sel maxvars s = Some r"
    by blast
  then show False
    using assms
  proof (induction rule: forward_loop.raw_induct [rotated 1, consumes 1, case_names step])
    case (step loop L data y y_mean SST sel maxvars s r)
    then show ?case
      by simp
  qed
qed

subsection \<open>C1: a round in which every candidate is singular\<close>

text \<open>
  C1 says that a round whose candidates are all singular ends the search as converged,
  with a failure value for the caller. The code skips each candidate, so
  \<^verbatim>\<open>scores_with_candidates\<close> is empty and \<^verbatim>\<open>scores_with_candidates.pop()\<close> raises
  \<^verbatim>\<open>IndexError\<close>, which nothing catches. The input is the response \<open>[1, 2, 3]\<close> with
  the single, constant candidate \<open>[1, 1, 1]\<close>: its normal-equation matrix is
  \<open>[[3, 3], [3, 3]]\<close>.
\<close>

theorem all_singular_raises_IndexError:
  "map_option snd
     (forward_selected (example_lib (\<lambda>xs. xs)) heap_at_import singular_data ''y''
        forward_selected_default_force_in 5) = Some (Inl IndexError)"
  by code_simp

subsection \<open>C3: termination of the search\<close>

lemma tie_scores:
  "score_candidates (example_lib (\<lambda>xs. xs)) tie_data [1, 0, - 1, 0, 0] (mean [1, 0, - 1, 0, 0])
     (total_sum_of_squares [1, 0, - 1, 0, 0]) [] [''x''] [] = Some [(0, ''x'')]"
  by code_simp

text \<open>
  C3 says that the loop halts in the round whose best score does not exceed the current
  score, also when the two are equal. The loop goes on while
  \<^verbatim>\<open>current_score == best_new_score\<close>; a best score equal to the current one commits
  nothing and leaves that test true, so the same round is run again for ever. The
  input is the response \<open>[1, 0, -1, 0, 0]\<close> with the candidate \<open>[1, -1, 0, 0, 0]\<close>,
  whose score is exactly \<open>0\<close>, the initial current score: the call does not return.
\<close>

theorem tie_never_returns:
  "forward_selected (example_lib (\<lambda>xs. xs)) heap_at_import tie_data ''y''
     forward_selected_default_force_in 5 = None"
proof -
  let ?L = "example_lib (\<lambda>xs. xs) :: string list lib"
  let ?y = "[1, 0, - 1, 0, 0] :: real list"
  let ?s = "initial_state ?L heap_at_import tie_data ''y'' forward_selected_default_force_in"
  have rem: "remaining ?s = [''x'']"
    by (simp add: initial_state_def example_lib_def heap_at_import_def tie_data_def columns_def)
  have sel: "lists ?s forward_selected_default_force_in = []"
    by (simp add: initial_state_def heap_at_import_def)
  have c: "loop_cond forward_selected_default_force_in 5 ?s"
    by (simp add: loop_cond_def rem sel) (simp add: initial_state_def)
  have r: "forward_round ?L tie_data ?y (mean ?y) (total_sum_of_squares ?y)
             forward_selected_default_force_in ?s = Continue ?s"
    by (simp add: forward_round_def rem sel tie_scores sort_scores_def pop_def
          del: score_candidates.simps)
       (simp add: initial_state_def)
  show ?thesis
    using forward_loop_stuck [OF c r]
    by (simp add: forward_selected_def tie_data_def)
qed

subsection \<open>C8: the final fit\<close>

lemma run_with_fails:
  "fit_fails k \<Longrightarrow> \<exists>e. run_with (model_warnings_filters fs) k = Inl e"
proof (induction k)
  case (Warns c k)
  show ?case
  proof (cases "c = RuntimeWarning")
    case True
    then show ?thesis
      by (simp add: model_warnings_filters_def filterwarnings_def)
  next
    case False
    with Warns show ?thesis
      by (cases "filter_action (model_warnings_filters fs) c") auto
  qed
qed simp_all

lemma run_with_value:
  "run_with (model_warnings_filters fs) k = Inr m \<Longrightarrow> \<not> fit_fails k \<and> fit_value k = Some m"
proof (induction k)
  case (Warns c k)
  then show ?case
    by (cases "c = RuntimeWarning")
       (auto simp: model_warnings_filters_def filterwarnings_def split: action.splits if_splits)
qed simp_all

text \<open>
  C8: whenever the fit of the design matrix raises an exception or emits a
  \<^verbatim>\<open>RuntimeWarning\<close>, \<^verbatim>\<open>_model_warnings\<close> returns \<^verbatim>\<open>None\<close>, whatever warnings filters
  were active before the call; and a model it does return is the value of a fit that
  ran to its end without exception and without \<^verbatim>\<open>RuntimeWarning\<close>. The function has
  no other outcome: no exception leaves it.
\<close>

theorem model_warnings_failure:
  "(map_of (cols dm) ''response'' = Some endog \<longrightarrow>
      fit_fails (ols_fit L endog (drop_column dm ''response'')) \<longrightarrow>
      model_warnings L dm = None) \<and>
   (model_warnings L dm = Some m \<longrightarrow>
      (\<exists>endog. map_of (cols dm) ''response'' = Some endog \<and>
         \<not> fit_fails (ols_fit L endog (drop_column dm ''response'')) \<and>
         fit_value (ols_fit L endog (drop_column dm ''response'')) = Some m))"
proof (intro conjI impI)
  assume "map_of (cols dm) ''response'' = Some endog"
    and "fit_fails (ols_fit L endog (drop_column dm ''response''))"
  then show "model_warnings L dm = None"
    using run_with_fails [of "ols_fit L endog (drop_column dm ''response'')" "warn_filters L"]
    by (auto simp: model_warnings_def ols_attempt_def)
next
  assume "model_warnings L dm = Some m"
  then show "\<exists>endog. map_of (cols dm) ''response'' = Some endog \<and>
         \<not> fit_fails (ols_fit L endog (drop_column dm ''response'')) \<and>
         fit_value (ols_fit L endog (drop_column dm ''response'')) = Some m"
    by (auto simp: model_warnings_def ols_attempt_def split: option.splits sum.splits
          dest: run_with_value)
qed

theorem model_warnings_failure_witness:
  "model_warnings warning_lib (model_df ok_data [''x1''] [1, 2, 3, 4, 5]) = None \<and>
   fit_value (ols_fit (example_lib (\<lambda>xs. xs)) [1, 2, 3, 4, 5]
      (drop_column (model_df ok_data [''x1''] [1, 2, 3, 4, 5]) ''response'')) =
     Some [''x1'', ''Intercept'']"
proof -
  let ?dm = "model_df ok_data [''x1''] [1, 2, 3, 4, 5]"
  have r: "map_of (cols ?dm) ''response'' = Some [1, 2, 3, 4, 5]"
    by (simp add: model_df_def set_column_def filter_items_def ok_data_def columns_def)
  have f: "fit_fails (ols_fit warning_lib [1, 2, 3, 4, 5] (drop_column ?dm ''response''))"
    by (simp add: warning_lib_def)
  have m: "model_warnings (example_lib (\<lambda>xs. xs)) ?dm = Some [''x1'', ''Intercept'']"
    by (simp add: model_warnings_def ols_attempt_def r example_lib_def)
       (simp add: model_df_def set_column_def filter_items_def ok_data_def columns_def
          drop_column_def)
  from model_warnings_failure [of ?dm "[1, 2, 3, 4, 5]" warning_lib] r f
  have "model_warnings warning_lib ?dm = None"
    by blast
  moreover
  from model_warnings_failure [of ?dm _ "example_lib (\<lambda>xs. xs)" "[''x1'', ''Intercept'']"] m r
  have "fit_value (ols_fit (example_lib (\<lambda>xs. xs)) [1, 2, 3, 4, 5]
          (drop_column ?dm ''response'')) = Some [''x1'', ''Intercept'']"
    by auto
  ultimately show ?thesis
    by simp
qed

subsection \<open>C4: the degrees-of-freedom guard\<close>

lemma fit_candidate_DofReturn:
  "fit_candidate L data y ym SST selected c = DofReturn \<longleftrightarrow>
     la_inv L (normal_matrix data (current_model_of L selected c)) \<noteq> None \<and>
     int (length y) - int (n_predictors data (current_model_of L selected c)) - 1 < 1"
  by (auto simp: fit_candidate_def Let_def split: option.splits)

lemma score_candidates_DofReturn:
  "\<exists>c \<in> set rem. fit_candidate L data y ym SST selected c = DofReturn \<Longrightarrow>
   score_candidates L data y ym SST selected rem scores = None"
  by (induction rem arbitrary: scores) (auto split: fit.splits)

text \<open>
  C4 as the code has it: the guard is reached only by a candidate whose matrix
  inversion succeeded (\<^verbatim>\<open>LinAlgError\<close> leads to \<^verbatim>\<open>continue\<close> before the guard).
  When some candidate of the round gets that far with \<open>n - p - 1 < 1\<close>, the whole search
  stops in that round: the value returned is the final fit on the predictors selected
  before the round, and the caller's list is as it was at the head of the round,
  whatever the other candidates are.
\<close>

theorem dof_guard_halts_search:
  assumes "loop_cond sel maxvars s"
    and "c \<in> set (remaining s)"
    and "la_inv L (normal_matrix data (current_model_of L (lists s sel) c)) \<noteq> None"
    and "int (length y) - int (n_predictors data (current_model_of L (lists s sel) c)) - 1 < 1"
  shows "forward_loop L data y ym SST sel maxvars s =
           Some (lists s, Inr (model_warnings L (model_df data (lists s sel) y)))"
proof -
  from assms(3,4) have "fit_candidate L data y ym SST (lists s sel) c = DofReturn"
    by (simp add: fit_candidate_DofReturn)
  with assms(2) have "score_candidates L data y ym SST (lists s sel) (remaining s) [] = None"
    by (intro score_candidates_DofReturn) blast
  then have "forward_round L data y ym SST sel s =
      Return (lists s) (model_warnings L (model_df data (lists s sel) y))"
    by (simp add: forward_round_def)
  with assms(1) show ?thesis
    by (subst forward_loop.simps) simp
qed

theorem dof_guard_halts_search_witness:
  "forward_loop (example_lib (\<lambda>xs. xs)) dof_data [3, 0, 0] (mean [3, 0, 0])
     (total_sum_of_squares [3, 0, 0]) forward_selected_default_force_in 5 dof_state =
   Some (lists dof_state, Inr (Some [''a'', ''Intercept'']))"
proof -
  let ?L = "example_lib (\<lambda>xs. xs) :: string list lib"
  have c: "loop_cond forward_selected_default_force_in 5 dof_state"
    by (simp add: loop_cond_def dof_state_def)
  have m: "''b'' \<in> set (remaining dof_state)"
    by (simp add: dof_state_def)
  have sel: "lists dof_state forward_selected_default_force_in = [''a'']"
    by (simp add: dof_state_def)
  have i: "la_inv ?L (normal_matrix dof_data (current_model_of ?L [''a''] ''b'')) \<noteq> None"
    by code_simp
  have d: "int (length [3, 0, 0 :: real]) -
             int (n_predictors dof_data (current_model_of ?L [''a''] ''b'')) - 1 < 1"
    by code_simp
  have f: "model_warnings ?L (model_df dof_data [''a''] [3, 0, 0]) = Some [''a'', ''Intercept'']"
    by code_simp
  from dof_guard_halts_search [of forward_selected_default_force_in 5 dof_state "''b''" ?L
      dof_data "[3, 0, 0]" "mean [3, 0, 0]" "total_sum_of_squares [3, 0, 0]"] c m i d
  show ?thesis
    by (simp add: sel f)
qed

text \<open>
  C4 as stated fails: on three rows with the columns \<open>a\<close>, \<open>b\<close> and \<open>a*b\<close>, the
  candidate \<open>a*b\<close> would use \<open>p = 3\<close> predictors, so \<open>n - p - 1 = -1\<close>; its
  normal-equation matrix is singular, the candidate is skipped, and the search goes on
  to accept \<open>a\<close> instead of returning the fit on the empty selection.
\<close>

theorem dof_skip_does_not_halt:
  "fit_candidate (example_lib (\<lambda>xs. xs)) dof_data [3, 0, 0] (mean [3, 0, 0])
      (total_sum_of_squares [3, 0, 0]) [] ''a*b'' = LinAlgError \<and>
   int (length [3, 0, 0 :: real]) -
     int (n_predictors dof_data (current_model_of (example_lib (\<lambda>xs. xs)) [] ''a*b'')) - 1 < 1 \<and>
   map_option (\<lambda>(h, r). (h forward_selected_default_force_in, r))
     (forward_selected (example_lib (\<lambda>xs. xs)) heap_at_import dof_data ''y''
        forward_selected_default_force_in 5) = Some ([''a''], Inr (Some [''a'', ''Intercept'']))"
  by code_simp

subsection \<open>C2: the winner among candidates of equal score\<close>

lemma score_candidates_Some:
  "score_candidates L data y ym SST selected rem acc = Some scores \<Longrightarrow>
   scores = acc @ concat (map (scored_of L data y ym SST selected) rem)"
proof (induction rem arbitrary: acc)
  case Nil
  then show ?case
    by simp
next
  case (Cons a rem)
  show ?case
  proof (cases "fit_candidate L data y ym SST selected a")
    case LinAlgError
    with Cons.prems Cons.IH [of acc] show ?thesis
      by (simp add: scored_of_def)
  next
    case DofReturn
    with Cons.prems show ?thesis
      by simp
  next
    case (Scored r)
    with Cons.prems Cons.IH [of "acc @ [(r, a)]"] show ?thesis
      by (simp add: scored_of_def)
  qed
qed

lemma filter_scored:
  "map snd (filter (\<lambda>x. fst x = b) (concat (map (scored_of L data y ym SST selected) rem))) =
   filter (\<lambda>c. fit_candidate L data y ym SST selected c = Scored b) rem"
  by (induction rem) (auto simp: scored_of_def split: fit.splits)

lemma sorted_le_last: "sorted xs \<Longrightarrow> x \<in> set xs \<Longrightarrow> x \<le> last xs"
  by (induction xs) auto

lemma last_filter_last: "xs \<noteq> [] \<Longrightarrow> P (last xs) \<Longrightarrow> last (filter P xs) = last xs"
proof (induction xs)
  case Nil
  then show ?case
    by simp
next
  case (Cons a xs)
  show ?case
  proof (cases "xs = []")
    case True
    with Cons.prems show ?thesis
      by simp
  next
    case False
    with Cons.prems have "P (last xs)" and "last xs \<in> set xs"
      by simp_all
    then have "filter P xs \<noteq> []"
      by (auto simp: filter_empty_conv)
    with Cons False \<open>P (last xs)\<close> show ?thesis
      by simp
  qed
qed

lemma pop_sort_scores:
  assumes "pop (sort_scores scores) = Inr (b, w)"
  shows "(b, w) \<in> set scores" and "\<forall>x \<in> set scores. fst x \<le> b"
    and "(b, w) = last (filter (\<lambda>x. fst x = b) scores)"
proof -
  let ?zs = "sort_key fst scores"
  from assms have ne: "?zs \<noteq> []" and l: "last ?zs = (b, w)"
    by (auto simp: pop_def sort_scores_def split: if_splits)
  from ne l have "(b, w) \<in> set ?zs"
    using last_in_set by metis
  then show "(b, w) \<in> set scores"
    by simp
  have s: "sorted (map fst ?zs)"
    by simp
  have "fst x \<le> b" if "x \<in> set scores" for x
  proof -
    from that have "fst x \<in> set (map fst ?zs)"
      by simp
    from sorted_le_last [OF s this] ne l show ?thesis
      by (simp add: last_map)
  qed
  then show "\<forall>x \<in> set scores. fst x \<le> b"
    by blast
  have "last (filter (\<lambda>x. fst x = b) ?zs) = last ?zs"
    using ne l by (intro last_filter_last) simp_all
  then show "(b, w) = last (filter (\<lambda>x. fst x = b) scores)"
    using l by (simp add: sort_key_stable)
qed

text \<open>
  C2 as the code has it: the sort is on the score alone and stable, and \<^verbatim>\<open>pop()\<close>
  takes the last element, so the winner of a round is the candidate that comes last in
  the iteration order of \<^verbatim>\<open>remaining\<close> among those with the greatest score. For a
  given iteration order the outcome is a function of the inputs.
\<close>

theorem tie_break_is_iteration_order:
  assumes "score_candidates L data y ym SST selected rem [] = Some scores"
    and "pop (sort_scores scores) = Inr (best, winner)"
  shows "(\<forall>c \<in> set rem. \<forall>r. fit_candidate L data y ym SST selected c = Scored r \<longrightarrow> r \<le> best) \<and>
         winner = last (filter (\<lambda>c. fit_candidate L data y ym SST selected c = Scored best) rem) \<and>
         winner \<in> set rem"
proof -
  from assms(1) have sc: "scores = concat (map (scored_of L data y ym SST selected) rem)"
    using score_candidates_Some by fastforce
  note p = pop_sort_scores [OF assms(2)]
  have a: "r \<le> best" if "c \<in> set rem" "fit_candidate L data y ym SST selected c = Scored r" for c r
  proof -
    from that have "(r, c) \<in> set scores"
      by (auto simp: sc scored_of_def)
    with p(2) show ?thesis
      by auto
  qed
  let ?f = "filter (\<lambda>x. fst x = best) scores"
  from p(1) have ne: "?f \<noteq> []"
    by (force simp: filter_empty_conv)
  have "winner = snd (last ?f)"
    using p(3) by (metis snd_conv)
  also have "\<dots> = last (map snd ?f)"
    using ne by (simp add: last_map)
  also have "map snd ?f = filter (\<lambda>c. fit_candidate L data y ym SST selected c = Scored best) rem"
    unfolding sc by (rule filter_scored)
  finally have w: "winner = last (filter (\<lambda>c. fit_candidate L data y ym SST selected c = Scored best) rem)" .
  from p(1) have "winner \<in> set rem"
    by (auto simp: sc scored_of_def split: fit.splits)
  with a w show ?thesis
    by blast
qed

lemma twin_scores:
  "score_candidates (example_lib (\<lambda>xs. xs)) twin_data [1, 2, 3, 4, 5] (mean [1, 2, 3, 4, 5])
     (total_sum_of_squares [1, 2, 3, 4, 5]) [] [''x1'', ''x2''] [] =
   Some [(107 / 111, ''x1''), (107 / 111, ''x2'')]"
  by code_simp

theorem tie_break_is_iteration_order_witness:
  "''x2'' = last (filter (\<lambda>c. fit_candidate (example_lib (\<lambda>xs. xs)) twin_data [1, 2, 3, 4, 5]
                                (mean [1, 2, 3, 4, 5]) (total_sum_of_squares [1, 2, 3, 4, 5]) [] c =
                              Scored (107 / 111)) [''x1'', ''x2'']) \<and>
   ''x2'' \<in> set [''x1'', ''x2'']"
proof -
  have p: "pop (sort_scores [(107 / 111 :: real, ''x1''), (107 / 111, ''x2'')]) =
             Inr (107 / 111, ''x2'')"
    by (simp add: pop_def sort_scores_def)
  from tie_break_is_iteration_order [OF twin_scores p] show ?thesis
    by blast
qed

text \<open>
  C2 as stated fails: \<open>x1\<close> and \<open>x2\<close> hold the same values, so their scores are equal.
  Iterating over the set in the order \<open>x1, x2\<close> selects \<open>x2\<close>, in the order
  \<open>x2, x1\<close> it selects \<open>x1\<close>; a sort on (score, name) would select \<open>x2\<close> both times.
\<close>

theorem tie_winner_depends_on_set_order:
  "map_option (\<lambda>(h, r). h forward_selected_default_force_in)
     (forward_selected (example_lib (\<lambda>xs. xs)) heap_at_import twin_data ''y''
        forward_selected_default_force_in 1) = Some [''x2''] \<and>
   map_option (\<lambda>(h, r). h forward_selected_default_force_in)
     (forward_selected (example_lib rev) heap_at_import twin_data ''y''
        forward_selected_default_force_in 1) = Some [''x1'']"
  by code_simp

subsection \<open>What one pass of the loop does to the state\<close>

lemma split_on_no_sep: "p \<in> set (split_on c s) \<Longrightarrow> c \<notin> set p"
  by (induction c s arbitrary: p rule: split_on.induct) (auto split: if_splits list.splits)

lemma not_own_base: "cand \<notin> set (base_features cand)"
  using split_on_no_sep [of cand "CHR ''*''" cand]
  by (auto simp: base_features_def split_star_def has_star_def)

lemma filter_neq_absent: "x \<notin> set xs \<Longrightarrow> filter (\<lambda>c. c \<noteq> x) xs = xs"
  by (induction xs) auto

lemma remove1_filter: "distinct xs \<Longrightarrow> remove1 x xs = filter (\<lambda>c. c \<noteq> x) xs"
  by (induction xs) (auto simp: filter_neq_absent)

lemma add_base_features_effect:
  "distinct (remaining s) \<Longrightarrow>
   \<exists>added. add_base_features sel bs s =
       s\<lparr>remaining := filter (\<lambda>c. c \<notin> set bs) (remaining s),
         lists := (lists s)(sel := lists s sel @ added)\<rparr> \<and>
     distinct added \<and> set added = set bs - set (lists s sel)"
proof (induction bs arbitrary: s)
  case Nil
  show ?case
    by (intro exI [of _ "[]"]) simp
next
  case (Cons b bs)
  define s1 where "s1 = (if b \<in> set (remaining s) then s\<lparr>remaining := remove1 b (remaining s)\<rparr> else s)"
  define s2 where "s2 = (if b \<notin> set (lists s1 sel)
      then s1\<lparr>lists := (lists s1)(sel := lists s1 sel @ [b])\<rparr> else s1)"
  define new where "new = (if b \<notin> set (lists s sel) then [b] else [])"
  have r1: "remaining s1 = filter (\<lambda>c. c \<noteq> b) (remaining s)"
    using Cons.prems by (auto simp: s1_def remove1_filter filter_neq_absent)
  have s2: "s2 = s\<lparr>remaining := filter (\<lambda>c. c \<noteq> b) (remaining s),
                    lists := (lists s)(sel := lists s sel @ new)\<rparr>"
    using r1 by (auto simp: s2_def s1_def new_def)
  have d: "distinct (remaining s2)"
    using Cons.prems by (simp add: s2)
  from Cons.IH [OF d] obtain added where
    a: "add_base_features sel bs s2 =
          s2\<lparr>remaining := filter (\<lambda>c. c \<notin> set bs) (remaining s2),
             lists := (lists s2)(sel := lists s2 sel @ added)\<rparr>"
    and da: "distinct added" and sa: "set added = set bs - set (lists s2 sel)"
    by blast
  have step: "add_base_features sel (b # bs) s = add_base_features sel bs s2"
    by (simp add: s1_def s2_def Let_def)
  have "add_base_features sel (b # bs) s =
      s\<lparr>remaining := filter (\<lambda>c. c \<notin> set (b # bs)) (remaining s),
        lists := (lists s)(sel := lists s sel @ (new @ added))\<rparr>"
    unfolding step a by (simp add: s2 conj_commute)
  moreover have "distinct (new @ added)"
    using da sa by (auto simp: new_def s2)
  moreover have "set (new @ added) = set (b # bs) - set (lists s sel)"
    using sa by (auto simp: new_def s2)
  ultimately show ?case
    by blast
qed

lemma commit_effect:
  assumes "distinct (remaining s)" and "cand \<in> set (remaining s)"
  shows "\<exists>added. (commit sel best cand s :: 'm step) =
       Continue (s\<lparr>remaining := filter (\<lambda>c. c \<noteq> cand \<and> c \<notin> set (base_features cand)) (remaining s),
                  lists := (lists s)(sel := lists s sel @ added @ [cand]),
                  current_score := best\<rparr>) \<and>
     distinct added \<and> set added = set (base_features cand) - set (lists s sel)"
proof (cases "has_star cand")
  case False
  with assms show ?thesis
    by (simp add: commit_def base_features_def remove1_filter)
next
  case True
  from add_base_features_effect [OF assms(1), of sel "split_star cand"] obtain added where
    a: "add_base_features sel (split_star cand) s =
          s\<lparr>remaining := filter (\<lambda>c. c \<notin> set (split_star cand)) (remaining s),
            lists := (lists s)(sel := lists s sel @ added)\<rparr>"
    and da: "distinct added" and sa: "set added = set (split_star cand) - set (lists s sel)"
    by blast
  have nb: "cand \<notin> set (split_star cand)"
    using not_own_base [of cand] True by (simp add: base_features_def)
  have "(commit sel best cand s :: 'm step) =
       Continue (s\<lparr>remaining := filter (\<lambda>c. c \<noteq> cand \<and> c \<notin> set (base_features cand)) (remaining s),
                  lists := (lists s)(sel := lists s sel @ added @ [cand]),
                  current_score := best\<rparr>)"
    using True assms nb
    by (simp add: commit_def a base_features_def remove1_filter conj_commute)
  with da sa True show ?thesis
    by (auto simp: base_features_def)
qed

lemma forward_round_Continue:
  assumes "forward_round (L :: 'm lib) data y ym SST sel s = Continue s2"
    and "distinct (remaining s)"
  shows "\<exists>scores best cand.
           score_candidates L data y ym SST (lists s sel) (remaining s) [] = Some scores \<and>
           pop (sort_scores scores) = Inr (best, cand) \<and> cand \<in> set (remaining s) \<and>
           (if current_score s < best
            then \<exists>added.
                   s2 = s\<lparr>best_new_score := best,
                          remaining := filter (\<lambda>c. c \<noteq> cand \<and> c \<notin> set (base_features cand)) (remaining s),
                          lists := (lists s)(sel := lists s sel @ added @ [cand]),
                          current_score := best\<rparr> \<and>
                   distinct added \<and> set added = set (base_features cand) - set (lists s sel)
            else s2 = s\<lparr>best_new_score := best\<rparr>)"
proof -
  from assms(1) obtain scores where
    sc: "score_candidates L data y ym SST (lists s sel) (remaining s) [] = Some scores"
    by (auto simp: forward_round_def split: option.splits)
  with assms(1) obtain best cand where p: "pop (sort_scores scores) = Inr (best, cand)"
    by (auto simp: forward_round_def split: sum.splits)
  have m: "cand \<in> set (remaining s)"
    using score_candidates_Some [OF sc] pop_sort_scores(1) [OF p]
    by (auto simp: scored_of_def split: fit.splits)
  show ?thesis
  proof (cases "current_score s < best")
    case False
    with assms(1) sc p m show ?thesis
      by (auto simp: forward_round_def)
  next
    case True
    let ?s1 = "s\<lparr>best_new_score := best\<rparr>"
    from commit_effect [of ?s1 cand sel best] assms(2) m obtain added where
      c: "(commit sel best cand ?s1 :: 'm step) =
           Continue (?s1\<lparr>remaining := filter (\<lambda>c. c \<noteq> cand \<and> c \<notin> set (base_features cand)) (remaining ?s1),
                  lists := (lists ?s1)(sel := lists ?s1 sel @ added @ [cand]),
                  current_score := best\<rparr>)"
      and da: "distinct added" and sa: "set added = set (base_features cand) - set (lists ?s1 sel)"
      by auto
    from assms(1) sc p True c have "s2 = s\<lparr>best_new_score := best,
                          remaining := filter (\<lambda>c. c \<noteq> cand \<and> c \<notin> set (base_features cand)) (remaining s),
                          lists := (lists s)(sel := lists s sel @ added @ [cand]),
                          current_score := best\<rparr>"
      by (simp add: forward_round_def)
    with sc p m True da sa show ?thesis
      by auto
  qed
qed

subsection \<open>The states between the passes\<close>

lemma initial_state_inv:
  assumes "set_order (set_iter L)"
  shows "search_inv data sel (initial_state L h data response sel)"
proof -
  let ?xs = "filter (\<lambda>c. c \<notin> set (h sel @ [response])) (remdups (columns data))"
  have "distinct ?xs"
    by simp
  with assms have "distinct (set_iter L ?xs)" and "set (set_iter L ?xs) = set ?xs"
    by (simp_all add: set_order_def)
  then show ?thesis
    by (auto simp: search_inv_def initial_state_def)
qed

lemma forward_round_inv:
  assumes "forward_round L data y ym SST sel s = Continue s2" and "search_inv data sel s"
  shows "search_inv data sel s2"
proof -
  from assms(2) have d: "distinct (remaining s)"
    by (simp add: search_inv_def)
  from forward_round_Continue [OF assms(1) d] assms(2) show ?thesis
    by (auto simp: search_inv_def split: if_splits)
qed

lemma rounds_inv:
  assumes "rounds L data y ym SST sel maxvars s0 s" and "search_inv data sel s0"
  shows "search_inv data sel s"
  using assms by (induction rule: rounds.induct) (auto intro: forward_round_inv)

lemma rounds_prepend:
  assumes "rounds L data y ym SST sel maxvars s2 s'"
    and "loop_cond sel maxvars s" and "forward_round L data y ym SST sel s = Continue s2"
  shows "rounds L data y ym SST sel maxvars s s'"
  using assms
proof (induction rule: rounds.induct)
  case start
  then show ?case
    by (auto intro: rounds.intros)
next
  case (pass s1 s3)
  then show ?case
    by (auto intro: rounds.pass)
qed

lemma forward_round_Return:
  "forward_round L data y ym SST sel s = Return h r \<Longrightarrow>
   h = lists s \<and> r = model_warnings L (model_df data (lists s sel) y)"
  by (auto simp: forward_round_def commit_def Let_def split: option.splits sum.splits if_splits)

lemma forward_loop_returns:
  assumes "forward_loop L data y ym SST sel maxvars s = Some (h', Inr res)"
  shows "\<exists>s'. rounds L data y ym SST sel maxvars s s' \<and> h' = lists s' \<and>
              res = model_warnings L (model_df data (lists s' sel) y)"
proof -
  have "\<forall>h' res. r = (h', Inr res) \<longrightarrow>
          (\<exists>s'. rounds L data y ym SST sel maxvars s s' \<and> h' = lists s' \<and>
              res = model_warnings L (model_df data (lists s' sel) y))"
    if "forward_loop L data y ym SST sel maxvars s = Some r" for r
    using that
  proof (induction rule: forward_loop.raw_induct [rotated 1, consumes 1, case_names step])
    case (step loop L data y ym SST sel maxvars s r)
    show ?case
    proof (cases "loop_cond sel maxvars s")
      case False
      with step(2) show ?thesis
        by (auto intro: rounds.start)
    next
      case True
      show ?thesis
      proof (cases "forward_round L data y ym SST sel s")
        case (Continue s2)
        with step(2) True have "loop L data y ym SST sel maxvars s2 = Some r"
          by simp
        from step(1) [OF this] True Continue show ?thesis
          by (blast intro: rounds_prepend)
      next
        case (Return h r0)
        with step(2) True forward_round_Return [OF Return] show ?thesis
          by (auto intro: rounds.start)
      next
        case (Raise h e)
        with step(2) True show ?thesis
          by auto
      qed
    qed
  qed
  with assms show ?thesis
    by blast
qed

lemma rounds_forward_loop:
  assumes "rounds L data y ym SST sel maxvars s0 s"
  shows "forward_loop L data y ym SST sel maxvars s = forward_loop L data y ym SST sel maxvars s0"
  using assms
proof (induction rule: rounds.induct)
  case start
  show ?case
    by simp
next
  case (pass s1 s2)
  have "forward_loop L data y ym SST sel maxvars s1 = forward_loop L data y ym SST sel maxvars s2"
    using pass(2,3) by (subst forward_loop.simps) simp
  with pass.IH show ?case
    by simp
qed

lemma add_base_features_appends:
  "\<exists>added. lists (add_base_features sel bs s) = (lists s)(sel := lists s sel @ added) \<and>
     distinct added \<and> set added = set bs - set (lists s sel)"
proof (induction bs arbitrary: s)
  case Nil
  show ?case
    by (intro exI [of _ "[]"]) simp
next
  case (Cons b bs)
  define s1 where "s1 = (if b \<in> set (remaining s) then s\<lparr>remaining := remove1 b (remaining s)\<rparr> else s)"
  define s2 where "s2 = (if b \<notin> set (lists s1 sel)
      then s1\<lparr>lists := (lists s1)(sel := lists s1 sel @ [b])\<rparr> else s1)"
  define new where "new = (if b \<notin> set (lists s sel) then [b] else [])"
  have s2: "lists s2 = (lists s)(sel := lists s sel @ new)"
    by (auto simp: s2_def s1_def new_def)
  have step: "add_base_features sel (b # bs) s = add_base_features sel bs s2"
    by (simp add: s1_def s2_def Let_def)
  from Cons.IH [of s2] obtain added where
    a: "lists (add_base_features sel bs s2) = (lists s2)(sel := lists s2 sel @ added)"
    and da: "distinct added" and sa: "set added = set bs - set (lists s2 sel)"
    by blast
  from a have "lists (add_base_features sel (b # bs) s) = (lists s)(sel := lists s sel @ (new @ added))"
    unfolding step by (simp add: s2)
  moreover have "distinct (new @ added)"
    using da sa by (auto simp: new_def s2)
  moreover have "set (new @ added) = set (b # bs) - set (lists s sel)"
    using sa by (auto simp: new_def s2)
  ultimately show ?case
    by blast
qed

lemma add_base_features_lists:
  "\<exists>added. lists (add_base_features sel bs s) = (lists s)(sel := lists s sel @ added)"
  using add_base_features_appends [of sel bs s] by blast

lemma forward_round_lists:
  assumes "forward_round L data y ym SST sel s = Continue s2"
  shows "\<exists>added. lists s2 = (lists s)(sel := lists s sel @ added)"
proof -
  have triv: "\<exists>added. lists s = (lists s)(sel := lists s sel @ added)"
    by (intro exI [of _ "[]"]) simp
  from assms obtain scores best cand where
    r: "(if current_score s < best then commit sel best cand (s\<lparr>best_new_score := best\<rparr>)
         else Continue (s\<lparr>best_new_score := best\<rparr>)) = (Continue s2 :: 'a step)"
    by (auto simp: forward_round_def Let_def split: option.splits sum.splits)
  show ?thesis
  proof (cases "current_score s < best")
    case False
    with r triv show ?thesis
      by auto
  next
    case True
    let ?s1 = "s\<lparr>best_new_score := best\<rparr>"
    obtain added where
      a: "lists (add_base_features sel (split_star cand) ?s1) = (lists ?s1)(sel := lists ?s1 sel @ added)"
      using add_base_features_lists by blast
    from r True have "lists s2 = (lists s)(sel := lists s sel @ [cand]) \<or>
        lists s2 = (lists s)(sel := lists s sel @ (added @ [cand]))"
      by (auto simp: commit_def Let_def a split: if_splits)
    then show ?thesis
      by blast
  qed
qed

lemma rounds_lists:
  assumes "rounds L data y ym SST sel maxvars s0 s"
  shows "\<exists>added. lists s = (lists s0)(sel := lists s0 sel @ added)"
  using assms
proof (induction rule: rounds.induct)
  case start
  show ?case
    by (intro exI [of _ "[]"]) simp
next
  case (pass s1 s2)
  from pass.IH obtain a1 where a1: "lists s1 = (lists s0)(sel := lists s0 sel @ a1)"
    by blast
  from forward_round_lists [OF pass(3)] obtain a2 where
    "lists s2 = (lists s1)(sel := lists s1 sel @ a2)"
    by blast
  with a1 have "lists s2 = (lists s0)(sel := lists s0 sel @ (a1 @ a2))"
    by simp
  then show ?case
    by blast
qed

subsection \<open>Running the examples\<close>

lemmas eval_defs = fit_candidate_def current_model_of_def n_predictors_def normal_matrix_def
  design_X_def to_numpy_def filter_items_def mat_T_def mat_mul_def vec_mat_def mat_vec_def
  col_def dot_def R_2_adj_def exact_inv_def del_def example_lib_def has_star_def split_star_def
  mean_def total_sum_of_squares_def Let_def upt_rec power2_eq_square

lemmas run_defs = forward_selected_call_def forward_selected_def initial_state_def
  forward_loop.simps loop_cond_def forward_round_def sort_scores_def pop_def commit_def
  model_warnings_def ols_attempt_def model_warnings_filters_def filterwarnings_def model_df_def
  set_column_def drop_column_def columns_def heap_at_import_def
  forward_selected_default_force_in_def

lemma ok_data_run:
  "map_option (\<lambda>(h, r). (h forward_selected_default_force_in, r))
     (forward_selected_call (example_lib (\<lambda>xs. xs)) heap_at_import ok_data ''y'' None None) =
   Some ([''x1''], Inr (Some [''x1'', ''Intercept'']))"
  by (simp add: run_defs eval_defs ok_data_def)

lemma inter_scores:
  "score_candidates (example_lib (\<lambda>xs. xs)) inter_data [0, 0, 0, 1, 2] (mean [0, 0, 0, 1, 2])
     (total_sum_of_squares [0, 0, 0, 1, 2]) [] [''a'', ''b'', ''a*b''] [] =
   Some [(113 / 168, ''a''), (1 / 6, ''b''), (1, ''a*b'')]"
  by (simp add: eval_defs inter_data_def)

lemma set_order_id: "set_order (\<lambda>xs. xs)"
  by (simp add: set_order_def)

lemma heap_at_import_apply: "heap_at_import r = []"
  by (simp add: heap_at_import_def)

lemma inter_initial_state:
  "initial_state (example_lib (\<lambda>xs. xs)) heap_at_import inter_data ''y''
     forward_selected_default_force_in =
   \<lparr>lists = heap_at_import, remaining = [''a'', ''b'', ''a*b''],
     current_score = 0, best_new_score = 0\<rparr>"
  by (simp add: initial_state_def example_lib_def heap_at_import_def inter_data_def columns_def)

lemma inter_response: "map_of (cols inter_data) ''y'' = Some [0, 0, 0, 1, 2]"
  by (simp add: inter_data_def)

subsection \<open>C7: committing an interaction term\<close>

text \<open>
  C7: in any state the search reaches, let \<open>(best, cand)\<close> be the entry popped from the
  sorted scores. If \<open>best\<close> exceeds the current score and \<open>cand\<close> is an interaction
  term, the pass appends to \<^verbatim>\<open>selected\<close> the base features of \<open>cand\<close> not selected yet
  (each once; among them every base feature that was in the candidate pool) and then
  \<open>cand\<close> itself, takes the base features and \<open>cand\<close> out of \<^verbatim>\<open>remaining\<close>, and
  sets the current score to \<open>best\<close>. If \<open>best\<close> does not exceed the current score, the
  pass changes neither \<^verbatim>\<open>selected\<close> nor \<^verbatim>\<open>remaining\<close> nor the current score.
\<close>

theorem interaction_commit:
  assumes "set_order (set_iter L)"
    and "rounds L data y ym SST sel maxvars (initial_state L h data response sel) s"
    and "score_candidates L data y ym SST (lists s sel) (remaining s) [] = Some scores"
    and "pop (sort_scores scores) = Inr (best, cand)"
  shows "(current_score s < best \<longrightarrow> has_star cand \<longrightarrow>
          (\<exists>added. forward_round L data y ym SST sel s =
              Continue (s\<lparr>best_new_score := best,
                         remaining := filter (\<lambda>c. c \<noteq> cand \<and> c \<notin> set (split_star cand)) (remaining s),
                         lists := (lists s)(sel := lists s sel @ added @ [cand]),
                         current_score := best\<rparr>) \<and>
             distinct added \<and> set added = set (split_star cand) - set (lists s sel) \<and>
             set (split_star cand) \<inter> set (remaining s) \<subseteq> set added)) \<and>
         (\<not> current_score s < best \<longrightarrow>
          forward_round L data y ym SST sel s = Continue (s\<lparr>best_new_score := best\<rparr>))"
proof (intro conjI impI)
  assume "\<not> current_score s < best"
  with assms(3,4) show "forward_round L data y ym SST sel s = Continue (s\<lparr>best_new_score := best\<rparr>)"
    by (simp add: forward_round_def)
next
  assume lt: "current_score s < best" and star: "has_star cand"
  from rounds_inv [OF assms(2) initial_state_inv [OF assms(1)]]
  have inv: "search_inv data sel s" .
  then have d: "distinct (remaining s)"
    and dj: "set (remaining s) \<inter> set (lists s sel) = {}"
    by (simp_all add: search_inv_def)
  have m: "cand \<in> set (remaining s)"
    using score_candidates_Some [OF assms(3)] pop_sort_scores(1) [OF assms(4)]
    by (auto simp: scored_of_def split: fit.splits)
  let ?s1 = "s\<lparr>best_new_score := best\<rparr>"
  from commit_effect [of ?s1 cand sel best] d m obtain added where
    c: "(commit sel best cand ?s1 :: 'a step) =
         Continue (?s1\<lparr>remaining := filter (\<lambda>c. c \<noteq> cand \<and> c \<notin> set (base_features cand)) (remaining ?s1),
                lists := (lists ?s1)(sel := lists ?s1 sel @ added @ [cand]),
                current_score := best\<rparr>)"
    and da: "distinct added" and sa: "set added = set (base_features cand) - set (lists ?s1 sel)"
    by auto
  have b: "base_features cand = split_star cand"
    using star by (simp add: base_features_def)
  have "forward_round L data y ym SST sel s =
      Continue (s\<lparr>best_new_score := best,
                 remaining := filter (\<lambda>c. c \<noteq> cand \<and> c \<notin> set (split_star cand)) (remaining s),
                 lists := (lists s)(sel := lists s sel @ added @ [cand]),
                 current_score := best\<rparr>)"
    using assms(3,4) lt c by (simp add: forward_round_def b)
  moreover have "set added = set (split_star cand) - set (lists s sel)"
    using sa b by simp
  moreover from this dj have "set (split_star cand) \<inter> set (remaining s) \<subseteq> set added"
    by auto
  ultimately show "\<exists>added. forward_round L data y ym SST sel s =
              Continue (s\<lparr>best_new_score := best,
                         remaining := filter (\<lambda>c. c \<noteq> cand \<and> c \<notin> set (split_star cand)) (remaining s),
                         lists := (lists s)(sel := lists s sel @ added @ [cand]),
                         current_score := best\<rparr>) \<and>
             distinct added \<and> set added = set (split_star cand) - set (lists s sel) \<and>
             set (split_star cand) \<inter> set (remaining s) \<subseteq> set added"
    using da by blast
qed

theorem interaction_commit_witness:
  "(\<exists>added.
      forward_round (example_lib (\<lambda>xs. xs)) inter_data [0, 0, 0, 1, 2] (mean [0, 0, 0, 1, 2])
        (total_sum_of_squares [0, 0, 0, 1, 2]) forward_selected_default_force_in
        (initial_state (example_lib (\<lambda>xs. xs)) heap_at_import inter_data ''y''
           forward_selected_default_force_in) =
      Continue \<lparr>lists = heap_at_import (forward_selected_default_force_in := added @ [''a*b'']),
                remaining = [], current_score = 1, best_new_score = 1\<rparr> \<and>
      distinct added \<and> set added = {''a'', ''b''}) \<and>
   forward_round (example_lib (\<lambda>xs. xs)) tie_data [1, 0, - 1, 0, 0] (mean [1, 0, - 1, 0, 0])
     (total_sum_of_squares [1, 0, - 1, 0, 0]) forward_selected_default_force_in
     (initial_state (example_lib (\<lambda>xs. xs)) heap_at_import tie_data ''y''
        forward_selected_default_force_in) =
   Continue \<lparr>lists = heap_at_import, remaining = [''x''], current_score = 0, best_new_score = 0\<rparr>"
proof -
  let ?L = "example_lib (\<lambda>xs. xs) :: string list lib"
  let ?d = forward_selected_default_force_in
  let ?s = "initial_state ?L heap_at_import inter_data ''y'' ?d"
  let ?t = "initial_state ?L heap_at_import tie_data ''y'' ?d"
  have o: "set_order (set_iter ?L)"
    by (simp add: example_lib_def set_order_id)
  have s: "?s = \<lparr>lists = heap_at_import, remaining = [''a'', ''b'', ''a*b''],
                 current_score = 0, best_new_score = 0\<rparr>"
    by (simp add: initial_state_def example_lib_def heap_at_import_def inter_data_def columns_def)
  have t: "?t = \<lparr>lists = heap_at_import, remaining = [''x''],
                 current_score = 0, best_new_score = 0\<rparr>"
    by (simp add: initial_state_def example_lib_def heap_at_import_def tie_data_def columns_def)
  have sc: "score_candidates ?L inter_data [0, 0, 0, 1, 2] (mean [0, 0, 0, 1, 2])
     (total_sum_of_squares [0, 0, 0, 1, 2]) (lists ?s ?d) (remaining ?s) [] =
     Some [(113 / 168, ''a''), (1 / 6, ''b''), (1, ''a*b'')]"
    unfolding s using inter_scores by (simp add: heap_at_import_def del: score_candidates.simps)
  have tc: "score_candidates ?L tie_data [1, 0, - 1, 0, 0] (mean [1, 0, - 1, 0, 0])
     (total_sum_of_squares [1, 0, - 1, 0, 0]) (lists ?t ?d) (remaining ?t) [] = Some [(0, ''x'')]"
    unfolding t using tie_scores by (simp add: heap_at_import_def del: score_candidates.simps)
  have p: "pop (sort_scores [(113 / 168 :: real, ''a''), (1 / 6, ''b''), (1, ''a*b'')]) =
             Inr (1, ''a*b'')"
    by (simp add: pop_def sort_scores_def)
  have q: "pop (sort_scores [(0 :: real, ''x'')]) = Inr (0, ''x'')"
    by (simp add: pop_def sort_scores_def)
  have star: "has_star ''a*b''"
    by (simp add: has_star_def)
  have sp: "split_star ''a*b'' = [''a'', ''b'']"
    by (simp add: split_star_def)
  from interaction_commit [OF o rounds.start sc p] star
  have a: "\<exists>added. forward_round ?L inter_data [0, 0, 0, 1, 2] (mean [0, 0, 0, 1, 2])
        (total_sum_of_squares [0, 0, 0, 1, 2]) ?d ?s =
      Continue \<lparr>lists = heap_at_import (?d := added @ [''a*b'']),
                remaining = [], current_score = 1, best_new_score = 1\<rparr> \<and>
      distinct added \<and> set added = {''a'', ''b''}"
    unfolding s by (simp add: sp heap_at_import_def) blast
  from interaction_commit [OF o rounds.start tc q]
  have b: "forward_round ?L tie_data [1, 0, - 1, 0, 0] (mean [1, 0, - 1, 0, 0])
     (total_sum_of_squares [1, 0, - 1, 0, 0]) ?d ?t =
   Continue \<lparr>lists = heap_at_import, remaining = [''x''], current_score = 0, best_new_score = 0\<rparr>"
    unfolding t by simp
  from a b show ?thesis
    by (rule conjI)
qed

subsection \<open>C5: the number of selected predictors\<close>

lemma rounds_bounded:
  assumes "rounds L data y ym SST sel maxvars s0 s"
    and "search_inv data sel s0"
    and "\<forall>c \<in> set (columns data). \<not> has_star c"
    and "int (length (lists s0 sel)) \<le> maxvars"
  shows "int (length (lists s sel)) \<le> maxvars"
  using assms
proof (induction rule: rounds.induct)
  case start
  then show ?case
    by simp
next
  case (pass s1 s2)
  from rounds_inv [OF pass(1) pass(5)] have inv: "search_inv data sel s1" .
  then have d: "distinct (remaining s1)" and sub: "set (remaining s1) \<subseteq> set (columns data)"
    by (simp_all add: search_inv_def)
  from pass(2) have lt: "int (length (lists s1 sel)) < maxvars"
    by (simp add: loop_cond_def)
  from forward_round_Continue [OF pass(3) d] obtain best cand where
    m: "cand \<in> set (remaining s1)"
    and c: "if current_score s1 < best
            then \<exists>added.
                   s2 = s1\<lparr>best_new_score := best,
                          remaining := filter (\<lambda>c. c \<noteq> cand \<and> c \<notin> set (base_features cand)) (remaining s1),
                          lists := (lists s1)(sel := lists s1 sel @ added @ [cand]),
                          current_score := best\<rparr> \<and>
                   distinct added \<and> set added = set (base_features cand) - set (lists s1 sel)
            else s2 = s1\<lparr>best_new_score := best\<rparr>"
    by blast
  from m sub pass(6) have "base_features cand = []"
    by (auto simp: base_features_def)
  with c lt show ?case
    by (auto split: if_splits)
qed

text \<open>
  C5 as the code has it: the size is tested at the head of the loop only. When the list
  \<^verbatim>\<open>force_in\<close> has at most \<^verbatim>\<open>maxvars\<close> entries and no column is an interaction term,
  the selection never has more than \<^verbatim>\<open>maxvars\<close> entries, in any state of the search
  and in the list the final fit is made on.
\<close>

theorem selected_within_maxvars_without_interactions:
  assumes "set_order (set_iter L)"
    and "\<forall>c \<in> set (columns data). \<not> has_star c"
    and "int (length (h force_in)) \<le> maxvars"
  shows "(\<forall>s. rounds L data y ym SST force_in maxvars
               (initial_state L h data response force_in) s \<longrightarrow>
             int (length (lists s force_in)) \<le> maxvars) \<and>
         (\<forall>h' res. forward_selected L h data response force_in maxvars = Some (h', Inr res) \<longrightarrow>
             int (length (h' force_in)) \<le> maxvars)"
proof -
  let ?s0 = "initial_state L h data response force_in"
  have i: "search_inv data force_in ?s0"
    using assms(1) by (rule initial_state_inv)
  have l: "int (length (lists ?s0 force_in)) \<le> maxvars"
    using assms(3) by (simp add: initial_state_def)
  have b: "int (length (lists s force_in)) \<le> maxvars"
    if "rounds L data y ym SST force_in maxvars ?s0 s" for s y ym SST
    using rounds_bounded [OF that i assms(2) l] .
  have "int (length (h' force_in)) \<le> maxvars"
    if "forward_selected L h data response force_in maxvars = Some (h', Inr res)" for h' res
  proof -
    from that obtain y0 where
      "forward_loop L data y0 (mean y0) (total_sum_of_squares y0) force_in maxvars ?s0 =
         Some (h', Inr res)"
      by (auto simp: forward_selected_def split: option.splits)
    from forward_loop_returns [OF this] b show ?thesis
      by blast
  qed
  with b show ?thesis
    by blast
qed

theorem selected_within_maxvars_without_interactions_witness:
  "\<exists>h' res. forward_selected (example_lib (\<lambda>xs. xs)) heap_at_import ok_data ''y''
              forward_selected_default_force_in 5 = Some (h', Inr res) \<and>
            h' forward_selected_default_force_in = [''x1''] \<and>
            int (length (h' forward_selected_default_force_in)) \<le> 5 \<and>
            int (length (lists (initial_state (example_lib (\<lambda>xs. xs)) heap_at_import ok_data ''y''
                                  forward_selected_default_force_in)
                           forward_selected_default_force_in)) \<le> 5"
proof -
  let ?L = "example_lib (\<lambda>xs. xs) :: string list lib"
  let ?d = forward_selected_default_force_in
  from ok_data_run obtain h' res where
    r: "forward_selected ?L heap_at_import ok_data ''y'' ?d 5 = Some (h', Inr res)"
    and h: "h' ?d = [''x1'']"
    by (auto simp: forward_selected_call_def)
  have o: "set_order (set_iter ?L)"
    by (simp add: example_lib_def set_order_id)
  have n: "\<forall>c \<in> set (columns ok_data). \<not> has_star c"
    by (simp add: ok_data_def columns_def has_star_def)
  have l: "int (length (heap_at_import ?d)) \<le> 5"
    by (simp add: heap_at_import_def)
  note t = selected_within_maxvars_without_interactions
         [where L = ?L and data = ok_data and h = heap_at_import and force_in = ?d
            and maxvars = 5 and response = "''y''" and y = "[1, 2, 3, 4, 5]"
            and ym = "mean [1, 2, 3, 4, 5]" and SST = "total_sum_of_squares [1, 2, 3, 4, 5]",
          OF o n l]
  from t r have "int (length (h' ?d)) \<le> 5"
    by blast
  moreover from t rounds.start
  have "int (length (lists (initial_state ?L heap_at_import ok_data ''y'' ?d) ?d)) \<le> 5"
    by blast
  ultimately show ?thesis
    using r h by blast
qed

text \<open>
  C5 as stated fails: with \<^verbatim>\<open>maxvars = 1\<close> and the columns \<open>a\<close>, \<open>b\<close>, \<open>a*b\<close>, the
  first pass accepts \<open>a*b\<close> and commits its two base features with it: three
  predictors are selected. And with \<^verbatim>\<open>maxvars = 1\<close> and two forced-in predictors the
  loop is not entered and the two stay selected.
\<close>

theorem selected_exceeds_maxvars:
  "map_option (\<lambda>(h, r). h forward_selected_default_force_in)
     (forward_selected (example_lib (\<lambda>xs. xs)) heap_at_import inter_data ''y''
        forward_selected_default_force_in 1) = Some [''a'', ''b'', ''a*b''] \<and>
   \<not> int (length [''a'', ''b'', ''a*b'']) \<le> 1 \<and>
   map_option (\<lambda>(h, r). h forward_selected_default_force_in)
     (forward_selected (example_lib (\<lambda>xs. xs))
        (heap_at_import (forward_selected_default_force_in := [''x1'', ''x2''])) ok_data ''y''
        forward_selected_default_force_in 1) = Some [''x1'', ''x2''] \<and>
   \<not> int (length [''x1'', ''x2'']) \<le> 1"
proof -
  have a: "map_option (\<lambda>(h, r). h forward_selected_default_force_in)
     (forward_selected (example_lib (\<lambda>xs. xs)) heap_at_import inter_data ''y''
        forward_selected_default_force_in 1) = Some [''a'', ''b'', ''a*b'']"
    by (simp add: forward_selected_def inter_response inter_initial_state forward_loop.simps
          loop_cond_def forward_round_def inter_scores sort_scores_def pop_def commit_def
          has_star_def split_star_def heap_at_import_apply
          del: score_candidates.simps)
  have b: "map_option (\<lambda>(h, r). h forward_selected_default_force_in)
     (forward_selected (example_lib (\<lambda>xs. xs))
        (heap_at_import (forward_selected_default_force_in := [''x1'', ''x2''])) ok_data ''y''
        forward_selected_default_force_in 1) = Some [''x1'', ''x2'']"
    by (simp add: forward_selected_def forward_loop.simps loop_cond_def initial_state_def
          ok_data_def)
  from a b show ?thesis
    by simp
qed

subsection \<open>C10: the caller's list\<close>

lemma commit_appends:
  assumes "(commit sel best cand s :: 'm step) = Continue s2"
  shows "\<exists>bases. lists s2 = (lists s)(sel := lists s sel @ bases @ [cand]) \<and>
           distinct bases \<and> set bases = set (base_features cand) - set (lists s sel)"
proof (cases "has_star cand")
  case False
  with assms have "lists s2 = (lists s)(sel := lists s sel @ [] @ [cand])"
    by (auto simp: commit_def split: if_splits)
  with False show ?thesis
    by (intro exI [of _ "[]"]) (simp add: base_features_def)
next
  case True
  let ?s1 = "add_base_features sel (split_star cand) s"
  from add_base_features_appends [of sel "split_star cand" s] obtain bases where
    b: "lists ?s1 = (lists s)(sel := lists s sel @ bases)"
    and d: "distinct bases" and st: "set bases = set (split_star cand) - set (lists s sel)"
    by blast
  from assms True have "lists s2 = (lists ?s1)(sel := lists ?s1 sel @ [cand])"
    by (auto simp: commit_def Let_def split: if_splits)
  with b have "lists s2 = (lists s)(sel := lists s sel @ bases @ [cand])"
    by simp
  with d st True show ?thesis
    by (auto simp: base_features_def)
qed

lemma commit_no_Return: "(commit sel best cand s :: 'm step) \<noteq> Return h r"
  by (simp add: commit_def Let_def)

lemma accepted_candidate_kept:
  assumes run: "forward_loop (L :: 'm lib) data y ym SST sel maxvars s = Some (h', Inr res)"
    and lc: "loop_cond sel maxvars s"
    and sc: "score_candidates L data y ym SST (lists s sel) (remaining s) [] = Some scores"
    and p: "pop (sort_scores scores) = Inr (best, cand)"
    and lt: "current_score s < best"
  shows "\<exists>bases later. h' sel = lists s sel @ bases @ [cand] @ later \<and>
           distinct bases \<and> set bases = set (base_features cand) - set (lists s sel)"
proof -
  let ?s1 = "s\<lparr>best_new_score := best\<rparr>"
  have fr: "forward_round L data y ym SST sel s = commit sel best cand ?s1"
    using sc p lt by (simp add: forward_round_def)
  show ?thesis
  proof (cases "commit sel best cand ?s1 :: 'm step")
    case (Return h r)
    then show ?thesis
      by (simp add: commit_no_Return)
  next
    case (Raise h e)
    with fr lc have "forward_loop L data y ym SST sel maxvars s = Some (h, Inl e)"
      by (subst forward_loop.simps) simp
    with run show ?thesis
      by simp
  next
    case (Continue s2)
    with fr lc have "forward_loop L data y ym SST sel maxvars s =
        forward_loop L data y ym SST sel maxvars s2"
      by (subst forward_loop.simps) simp
    with run have "forward_loop L data y ym SST sel maxvars s2 = Some (h', Inr res)"
      by simp
    from forward_loop_returns [OF this] obtain s' where
      "rounds L data y ym SST sel maxvars s2 s'" and h': "h' = lists s'"
      by blast
    from rounds_lists [OF this(1)] obtain later where
      l: "lists s' = (lists s2)(sel := lists s2 sel @ later)"
      by blast
    from commit_appends [OF Continue] obtain bases where
      b: "lists s2 = (lists ?s1)(sel := lists ?s1 sel @ bases @ [cand])"
      and d: "distinct bases"
      and st: "set bases = set (base_features cand) - set (lists ?s1 sel)"
      by blast
    from h' l b have "h' sel = lists s sel @ bases @ [cand] @ later"
      by simp
    with d st show ?thesis
      by auto
  qed
qed

text \<open>
  C10: \<^verbatim>\<open>selected\<close> is the list object the caller passed (or the default object of the
  function), and every accepted candidate is appended to that object. When the call
  returns a value:
  \<^item> the model is fit on the content of the object as the call leaves it, and every
    other list is unchanged;
  \<^item> the object holds what it held before the call, followed by what was appended;
  \<^item> for every pass of the search that accepts a candidate (the popped best score
    exceeds the current score), the object holds, after what it held at the head of
    that pass, the base features of the candidate that were not yet in it, each once,
    then the candidate itself, then what later passes appended;
  \<^item> a later call that is given the same object (every call that leaves \<^verbatim>\<open>force_in\<close>
    out shares the default object) starts from that content: the list it leaves and
    the model it returns begin with the predictors the first call accepted.
\<close>

theorem force_in_extended_in_place:
  assumes "forward_selected_call L h data response force_in maxvars = Some (h', Inr res)"
    and "ref = (case force_in of None \<Rightarrow> forward_selected_default_force_in | Some r \<Rightarrow> r)"
    and "mv = (case maxvars of None \<Rightarrow> 5 | Some m \<Rightarrow> m)"
  shows "\<exists>y. map_of (cols data) response = Some y \<and>
             res = model_warnings L (model_df data (h' ref) y) \<and>
             (\<forall>r. r \<noteq> ref \<longrightarrow> h' r = h r) \<and>
             (\<exists>added. h' ref = h ref @ added) \<and>
             (\<forall>s scores best cand.
                rounds L data y (mean y) (total_sum_of_squares y) ref mv
                  (initial_state L h data response ref) s \<and>
                loop_cond ref mv s \<and>
                score_candidates L data y (mean y) (total_sum_of_squares y) (lists s ref)
                  (remaining s) [] = Some scores \<and>
                pop (sort_scores scores) = Inr (best, cand) \<and>
                current_score s < best \<longrightarrow>
                (\<exists>bases later. h' ref = lists s ref @ bases @ [cand] @ later \<and>
                   distinct bases \<and>
                   set bases = set (base_features cand) - set (lists s ref))) \<and>
             (\<forall>data2 response2 maxvars2 h2 res2.
                forward_selected_call L h' data2 response2 force_in maxvars2 = Some (h2, Inr res2) \<longrightarrow>
                (\<exists>added2 y2. h2 ref = h' ref @ added2 \<and>
                   map_of (cols data2) response2 = Some y2 \<and>
                   res2 = model_warnings L (model_df data2 (h' ref @ added2) y2)))"
proof -
  let ?s0 = "initial_state L h data response ref"
  have call: "\<exists>y0 s'. map_of (cols data0) response0 = Some y0 \<and>
        rounds L data0 y0 (mean y0) (total_sum_of_squares y0) ref mv0
          (initial_state L h0 data0 response0 ref) s' \<and>
        h1 = lists s' \<and> res0 = model_warnings L (model_df data0 (lists s' ref) y0) \<and>
        forward_loop L data0 y0 (mean y0) (total_sum_of_squares y0) ref mv0
          (initial_state L h0 data0 response0 ref) = Some (h1, Inr res0)"
    if "forward_selected_call L h0 data0 response0 force_in maxvars0 = Some (h1, Inr res0)"
      and "mv0 = (case maxvars0 of None \<Rightarrow> 5 | Some m \<Rightarrow> m)"
    for h0 data0 response0 maxvars0 h1 res0 mv0
  proof -
    from that assms(2) obtain y0 where y0: "map_of (cols data0) response0 = Some y0"
      and run: "forward_loop L data0 y0 (mean y0) (total_sum_of_squares y0) ref mv0
          (initial_state L h0 data0 response0 ref) = Some (h1, Inr res0)"
      by (auto simp: forward_selected_call_def forward_selected_def split: option.splits)
    from forward_loop_returns [OF run] y0 run show ?thesis
      by blast
  qed
  from call [OF assms(1,3)] obtain y s' where y: "map_of (cols data) response = Some y"
    and r: "rounds L data y (mean y) (total_sum_of_squares y) ref mv ?s0 s'"
    and h': "h' = lists s'"
    and res: "res = model_warnings L (model_df data (lists s' ref) y)"
    and run: "forward_loop L data y (mean y) (total_sum_of_squares y) ref mv ?s0 = Some (h', Inr res)"
    by blast
  from rounds_lists [OF r] obtain added where
    a: "lists s' = (lists ?s0)(ref := lists ?s0 ref @ added)"
    by blast
  then have frame: "\<forall>r. r \<noteq> ref \<longrightarrow> h' r = h r"
    and ext: "\<exists>added. h' ref = h ref @ added"
    by (simp_all add: h' initial_state_def)
  have acc: "\<exists>bases later. h' ref = lists s ref @ bases @ [cand] @ later \<and>
                   distinct bases \<and> set bases = set (base_features cand) - set (lists s ref)"
    if "rounds L data y (mean y) (total_sum_of_squares y) ref mv ?s0 s \<and>
        loop_cond ref mv s \<and>
        score_candidates L data y (mean y) (total_sum_of_squares y) (lists s ref)
          (remaining s) [] = Some scores \<and>
        pop (sort_scores scores) = Inr (best, cand) \<and> current_score s < best"
    for s scores best cand
  proof -
    from that rounds_forward_loop [of L data y "mean y" "total_sum_of_squares y" ref mv ?s0 s] run
    have "forward_loop L data y (mean y) (total_sum_of_squares y) ref mv s = Some (h', Inr res)"
      by simp
    from accepted_candidate_kept [OF this] that show ?thesis
      by blast
  qed
  have later: "\<exists>added2 y2. h2 ref = h' ref @ added2 \<and>
                   map_of (cols data2) response2 = Some y2 \<and>
                   res2 = model_warnings L (model_df data2 (h' ref @ added2) y2)"
    if "forward_selected_call L h' data2 response2 force_in maxvars2 = Some (h2, Inr res2)"
    for data2 response2 maxvars2 h2 res2
  proof -
    from call [OF that refl] obtain y2 s2 where
      y2: "map_of (cols data2) response2 = Some y2"
      and r2: "rounds L data2 y2 (mean y2) (total_sum_of_squares y2) ref
                 (case maxvars2 of None \<Rightarrow> 5 | Some m \<Rightarrow> m)
                 (initial_state L h' data2 response2 ref) s2"
      and h2: "h2 = lists s2"
      and res2: "res2 = model_warnings L (model_df data2 (lists s2 ref) y2)"
      by blast
    from rounds_lists [OF r2] obtain added2 where
      "lists s2 = (lists (initial_state L h' data2 response2 ref))
          (ref := lists (initial_state L h' data2 response2 ref) ref @ added2)"
      by blast
    then have "lists s2 ref = h' ref @ added2"
      by (simp add: initial_state_def)
    with y2 h2 res2 show ?thesis
      by auto
  qed
  from y res h' frame ext acc later show ?thesis
    by blast
qed

lemma ok_scores:
  "score_candidates (example_lib (\<lambda>xs. xs)) ok_data [1, 2, 3, 4, 5] (mean [1, 2, 3, 4, 5])
     (total_sum_of_squares [1, 2, 3, 4, 5]) [] [''x1'', ''x2''] [] =
   Some [(107 / 111, ''x1''), (- (1 / 3), ''x2'')]"
  by (simp add: eval_defs ok_data_def)

lemma ok_data_second_run:
  "map_option (\<lambda>(h, r). (h forward_selected_default_force_in, r))
     (forward_selected_call (example_lib (\<lambda>xs. xs))
        (heap_at_import (forward_selected_default_force_in := [''x1''])) ok_data ''y'' None None) =
   Some ([''x1'', ''x2''], Inr (Some [''x1'', ''x2'', ''Intercept'']))"
  by (simp add: run_defs eval_defs ok_data_def)

lemma inter_data_run:
  "map_option (\<lambda>(h, r). (h forward_selected_default_force_in, r))
     (forward_selected (example_lib (\<lambda>xs. xs)) heap_at_import inter_data ''y''
        forward_selected_default_force_in 1) =
   Some ([''a'', ''b'', ''a*b''], Inr (Some [''a'', ''b'', ''a*b'', ''Intercept'']))"
proof -
  have m: "model_warnings (example_lib (\<lambda>xs. xs))
      (model_df inter_data [''a'', ''b'', ''a*b''] [0, 0, 0, 1, 2]) =
      Some [''a'', ''b'', ''a*b'', ''Intercept'']"
    by (simp add: model_warnings_def ols_attempt_def model_warnings_filters_def
          filterwarnings_def model_df_def set_column_def drop_column_def columns_def
          filter_items_def example_lib_def inter_data_def)
  show ?thesis
    by (simp add: forward_selected_def inter_response inter_initial_state forward_loop.simps
          loop_cond_def forward_round_def inter_scores sort_scores_def pop_def commit_def
          has_star_def split_star_def heap_at_import_apply m
          del: score_candidates.simps)
qed

theorem force_in_extended_in_place_witness:
  "\<exists>h' res h2 res2.
     forward_selected_call (example_lib (\<lambda>xs. xs)) heap_at_import ok_data ''y'' None None =
       Some (h', Inr res) \<and>
     h' forward_selected_default_force_in = [''x1''] \<and>
     h' (Suc forward_selected_default_force_in) = [] \<and>
     (\<exists>bases later. h' forward_selected_default_force_in =
        heap_at_import forward_selected_default_force_in @ bases @ [''x1''] @ later) \<and>
     forward_selected_call (example_lib (\<lambda>xs. xs)) h' ok_data ''y'' None None =
       Some (h2, Inr res2) \<and>
     h2 forward_selected_default_force_in = [''x1'', ''x2''] \<and>
     (\<exists>added2. h2 forward_selected_default_force_in =
        h' forward_selected_default_force_in @ added2) \<and>
     (\<exists>h3 res3 bases later.
        forward_selected_call (example_lib (\<lambda>xs. xs)) heap_at_import inter_data ''y'' None (Some 1) =
          Some (h3, Inr res3) \<and>
        h3 forward_selected_default_force_in =
          heap_at_import forward_selected_default_force_in @ bases @ [''a*b''] @ later \<and>
        distinct bases \<and> set bases = {''a'', ''b''})"
proof -
  let ?L = "example_lib (\<lambda>xs. xs) :: string list lib"
  let ?d = forward_selected_default_force_in
  let ?s0 = "initial_state ?L heap_at_import ok_data ''y'' ?d"
  from ok_data_run obtain h' res where
    r: "forward_selected_call ?L heap_at_import ok_data ''y'' None None = Some (h', Inr res)"
    and h: "h' ?d = [''x1'']"
    by auto
  from force_in_extended_in_place [OF r, of ?d 5] obtain y where
    y: "map_of (cols ok_data) ''y'' = Some y"
    and o: "\<forall>r. r \<noteq> ?d \<longrightarrow> h' r = heap_at_import r"
    and acc: "\<forall>s scores best cand.
                rounds ?L ok_data y (mean y) (total_sum_of_squares y) ?d 5 ?s0 s \<and>
                loop_cond ?d 5 s \<and>
                score_candidates ?L ok_data y (mean y) (total_sum_of_squares y) (lists s ?d)
                  (remaining s) [] = Some scores \<and>
                pop (sort_scores scores) = Inr (best, cand) \<and>
                current_score s < best \<longrightarrow>
                (\<exists>bases later. h' ?d = lists s ?d @ bases @ [cand] @ later \<and>
                   distinct bases \<and>
                   set bases = set (base_features cand) - set (lists s ?d))"
    and nxt: "\<forall>data2 response2 maxvars2 h2 res2.
                forward_selected_call ?L h' data2 response2 None maxvars2 = Some (h2, Inr res2) \<longrightarrow>
                (\<exists>added2 y2. h2 ?d = h' ?d @ added2 \<and>
                   map_of (cols data2) response2 = Some y2 \<and>
                   res2 = model_warnings ?L (model_df data2 (h' ?d @ added2) y2))"
    by auto
  from y have y': "y = [1, 2, 3, 4, 5]"
    by (simp add: ok_data_def)
  have s0: "?s0 = \<lparr>lists = heap_at_import, remaining = [''x1'', ''x2''],
                  current_score = 0, best_new_score = 0\<rparr>"
    by (simp add: initial_state_def example_lib_def heap_at_import_def ok_data_def columns_def)
  have lc: "loop_cond ?d 5 ?s0"
    unfolding s0 by (simp add: loop_cond_def heap_at_import_def)
  have sc: "score_candidates ?L ok_data y (mean y) (total_sum_of_squares y) (lists ?s0 ?d)
      (remaining ?s0) [] = Some [(107 / 111, ''x1''), (- (1 / 3), ''x2'')]"
    unfolding s0 y' using ok_scores by (simp add: heap_at_import_def del: score_candidates.simps)
  have p: "pop (sort_scores [(107 / 111 :: real, ''x1''), (- (1 / 3), ''x2'')]) =
      Inr (107 / 111, ''x1'')"
    by (simp add: pop_def sort_scores_def)
  have lt: "current_score ?s0 < 107 / 111"
    unfolding s0 by simp
  from acc rounds.start [of ?L ok_data y "mean y" "total_sum_of_squares y" ?d 5 ?s0] lc sc p lt
  have "\<exists>bases later. h' ?d = lists ?s0 ?d @ bases @ [''x1''] @ later \<and>
          distinct bases \<and> set bases = set (base_features ''x1'') - set (lists ?s0 ?d)"
    by blast
  then have a: "\<exists>bases later. h' ?d = heap_at_import ?d @ bases @ [''x1''] @ later"
    unfolding s0 by auto
  from o have f: "h' (Suc ?d) = []"
    by (simp add: heap_at_import_def)
  from o h have "h' = heap_at_import (?d := [''x1''])"
    by (intro ext) simp
  with ok_data_second_run obtain h2 res2 where
    r2: "forward_selected_call ?L h' ok_data ''y'' None None = Some (h2, Inr res2)"
    and h2: "h2 ?d = [''x1'', ''x2'']"
    by auto
  from nxt r2 have n: "\<exists>added2. h2 ?d = h' ?d @ added2"
    by blast
  let ?t0 = "initial_state ?L heap_at_import inter_data ''y'' ?d"
  from inter_data_run obtain h3 res3 where
    r3: "forward_selected_call ?L heap_at_import inter_data ''y'' None (Some 1) = Some (h3, Inr res3)"
    by (auto simp: forward_selected_call_def)
  from force_in_extended_in_place [OF r3, of ?d 1] obtain z where
    z: "map_of (cols inter_data) ''y'' = Some z"
    and acc3: "\<forall>s scores best cand.
                rounds ?L inter_data z (mean z) (total_sum_of_squares z) ?d 1 ?t0 s \<and>
                loop_cond ?d 1 s \<and>
                score_candidates ?L inter_data z (mean z) (total_sum_of_squares z) (lists s ?d)
                  (remaining s) [] = Some scores \<and>
                pop (sort_scores scores) = Inr (best, cand) \<and>
                current_score s < best \<longrightarrow>
                (\<exists>bases later. h3 ?d = lists s ?d @ bases @ [cand] @ later \<and>
                   distinct bases \<and>
                   set bases = set (base_features cand) - set (lists s ?d))"
    by auto
  from z have z': "z = [0, 0, 0, 1, 2]"
    by (simp add: inter_response)
  have lc3: "loop_cond ?d 1 ?t0"
    unfolding inter_initial_state by (simp add: loop_cond_def heap_at_import_def)
  have sc3: "score_candidates ?L inter_data z (mean z) (total_sum_of_squares z) (lists ?t0 ?d)
      (remaining ?t0) [] = Some [(113 / 168, ''a''), (1 / 6, ''b''), (1, ''a*b'')]"
    unfolding inter_initial_state z' using inter_scores
    by (simp add: heap_at_import_def del: score_candidates.simps)
  have p3: "pop (sort_scores [(113 / 168 :: real, ''a''), (1 / 6, ''b''), (1, ''a*b'')]) =
      Inr (1, ''a*b'')"
    by (simp add: pop_def sort_scores_def)
  have lt3: "current_score ?t0 < 1"
    unfolding inter_initial_state by simp
  have bf: "base_features ''a*b'' = [''a'', ''b'']"
    by (simp add: base_features_def has_star_def split_star_def)
  from acc3 rounds.start [of ?L inter_data z "mean z" "total_sum_of_squares z" ?d 1 ?t0]
    lc3 sc3 p3 lt3
  have "\<exists>bases later. h3 ?d = lists ?t0 ?d @ bases @ [''a*b''] @ later \<and>
          distinct bases \<and> set bases = set (base_features ''a*b'') - set (lists ?t0 ?d)"
    by blast
  then have "\<exists>bases later. h3 ?d = heap_at_import ?d @ bases @ [''a*b''] @ later \<and>
          distinct bases \<and> set bases = {''a'', ''b''}"
    unfolding inter_initial_state bf by (simp add: heap_at_import_def)
  then obtain bases later where
    "h3 ?d = heap_at_import ?d @ bases @ [''a*b''] @ later \<and>
     distinct bases \<and> set bases = {''a'', ''b''}"
    by blast
  with r3 have
    "forward_selected_call ?L heap_at_import inter_data ''y'' None (Some 1) = Some (h3, Inr res3) \<and>
     h3 ?d = heap_at_import ?d @ bases @ [''a*b''] @ later \<and>
     distinct bases \<and> set bases = {''a'', ''b''}"
    by (rule conjI)
  then have c: "\<exists>h3 res3 bases later.
        forward_selected_call ?L heap_at_import inter_data ''y'' None (Some 1) = Some (h3, Inr res3) \<and>
        h3 ?d = heap_at_import ?d @ bases @ [''a*b''] @ later \<and>
        distinct bases \<and> set bases = {''a'', ''b''}"
    by (intro exI)
  from r h f a r2 h2 n c have
    "forward_selected_call ?L heap_at_import ok_data ''y'' None None = Some (h', Inr res) \<and>
     h' ?d = [''x1''] \<and>
     h' (Suc ?d) = [] \<and>
     (\<exists>bases later. h' ?d = heap_at_import ?d @ bases @ [''x1''] @ later) \<and>
     forward_selected_call ?L h' ok_data ''y'' None None = Some (h2, Inr res2) \<and>
     h2 ?d = [''x1'', ''x2''] \<and>
     (\<exists>added2. h2 ?d = h' ?d @ added2) \<and>
     (\<exists>h3 res3 bases later.
        forward_selected_call ?L heap_at_import inter_data ''y'' None (Some 1) = Some (h3, Inr res3) \<and>
        h3 ?d = heap_at_import ?d @ bases @ [''a*b''] @ later \<and>
        distinct bases \<and> set bases = {''a'', ''b''})"
    by - (intro conjI; assumption)
  then show ?thesis
    by (intro exI)
qed

subsection \<open>C6: the score\<close>

lemma dot_commute: "dot u v = dot v u"
proof -
  have "map2 (*) u v = map2 (*) v u"
  proof (induction u arbitrary: v)
    case Nil
    then show ?case
      by simp
  next
    case (Cons a u)
    then show ?case
      by (cases v) (auto simp: mult.commute)
  qed
  then show ?thesis
    by (simp add: dot_def)
qed

lemma col_mat_T:
  assumes "j < length X" and "length (X ! j) = m"
  shows "col j (mat_T m X) = X ! j"
proof -
  have "col j (mat_T m X) = map (\<lambda>k. X ! j ! k) [0..<m]"
    using assms(1) by (simp add: col_def mat_T_def)
  also have "\<dots> = X ! j"
    unfolding assms(2) [symmetric] by (rule map_nth)
  finally show ?thesis .
qed

lemma vec_mat_T:
  assumes "\<forall>r \<in> set X. length r = m"
  shows "vec_mat (length X) v (mat_T m X) = mat_vec X v"
proof -
  have "vec_mat (length X) v (mat_T m X) = map (\<lambda>j. dot v (X ! j)) [0..<length X]"
    using assms by (simp add: vec_mat_def col_mat_T)
  also have "\<dots> = map (\<lambda>r. dot v r) X"
    by (rule nth_equalityI) simp_all
  also have "\<dots> = mat_vec X v"
    by (simp add: mat_vec_def dot_commute [of v])
  finally show ?thesis .
qed

lemma design_X_shape:
  "length (design_X data cm) = nrows data"
  "\<forall>r \<in> set (design_X data cm). length r = n_predictors data cm + 1"
  by (auto simp: design_X_def to_numpy_def n_predictors_def filter_items_def)

lemma response_length:
  assumes "wf_frame data" and "map_of (cols data) response = Some y"
  shows "length y = nrows data"
proof -
  from assms(2) have "(response, y) \<in> set (cols data)"
    by (rule map_of_SomeD)
  with assms(1) show ?thesis
    by (auto simp: wf_frame_def)
qed

text \<open>
  C6: every entry \<open>(r, candidate)\<close> of \<^verbatim>\<open>scores_with_candidates\<close> in a search on a
  rectangular frame has \<open>r\<close> equal to the adjusted \<open>R\<^sup>2\<close> of the specification, taken
  at the design matrix \<open>X\<close> of the candidate (intercept last) and at
  \<open>\<beta> = (X\<^sup>TX)\<^sup>-\<^sup>1 X\<^sup>T y\<close>: the sum of squares in the numerator runs over the fitted
  values \<open>X\<beta>\<close>, the mean and the total sum of squares are those of the whole
  response, handed to every round by \<^verbatim>\<open>forward_selected\<close>, and \<open>p\<close> is the number of
  columns of \<open>X\<close> without the intercept, with \<open>n - p - 1 \<ge> 1\<close>.
\<close>

theorem score_is_adjusted_R2:
  assumes "wf_frame data" and "map_of (cols data) response = Some y"
    and "score_candidates L data y (mean y) (total_sum_of_squares y) selected rem [] = Some scores"
    and "(r, candidate) \<in> set scores"
  shows "\<exists>XtX_inv.
           la_inv L (normal_matrix data (current_model_of L selected candidate)) = Some XtX_inv \<and>
           r = spec_adjusted_R2 (design_X data (current_model_of L selected candidate))
                 (mat_vec (mat_mul (length y) XtX_inv
                    (mat_T (n_predictors data (current_model_of L selected candidate) + 1)
                       (design_X data (current_model_of L selected candidate)))) y) y \<and>
           n_predictors data (current_model_of L selected candidate) + 2 \<le> length y"
proof -
  let ?cm = "current_model_of L selected candidate"
  let ?p = "n_predictors data ?cm"
  let ?X = "design_X data ?cm"
  let ?n = "length y"
  from assms(3,4) have f: "fit_candidate L data y (mean y) (total_sum_of_squares y) selected candidate = Scored r"
    using score_candidates_Some by (fastforce simp: scored_of_def split: fit.splits)
  then obtain XtX_inv where i: "la_inv L (normal_matrix data ?cm) = Some XtX_inv"
    by (auto simp: fit_candidate_def Let_def split: option.splits)
  let ?beta = "mat_vec (mat_mul ?n XtX_inv (mat_T (?p + 1) ?X)) y"
  from f i have dof: "\<not> int ?n - int ?p - 1 < 1"
    and r: "r = R_2_adj (\<Sum>f\<leftarrow>vec_mat ?n ?beta (mat_T (?p + 1) ?X). (f - mean y)\<^sup>2)
                  (total_sum_of_squares y) ?n ?p"
    by (auto simp: fit_candidate_def Let_def split: if_splits)
  from dof have n: "?p + 2 \<le> ?n"
    by simp
  have len: "length ?X = ?n"
    using response_length [OF assms(1,2)] by (simp add: design_X_shape)
  have fv: "vec_mat ?n ?beta (mat_T (?p + 1) ?X) = mat_vec ?X ?beta"
    using vec_mat_T [OF design_X_shape(2), of data ?cm ?beta] by (simp add: len)
  from len n have "?X \<noteq> []"
    by auto
  then have "hd ?X \<in> set ?X"
    by simp
  with design_X_shape(2) [of data ?cm] have "length (hd ?X) = ?p + 1"
    by blast
  then have p: "length (hd ?X) - 1 = ?p"
    by simp
  have q: "real_of_int (int ?n - 1) / real_of_int (int ?n - int ?p - 1) =
           real (?n - 1) / real (?n - ?p - 1)"
    using n by (simp add: of_nat_diff)
  have "spec_adjusted_R2 ?X ?beta y =
      1 - (1 - (\<Sum>f\<leftarrow>mat_vec ?X ?beta. (f - mean y)\<^sup>2) / total_sum_of_squares y) *
          (real (?n - 1) / real (?n - (length (hd ?X) - 1) - 1))"
    by (simp only: spec_adjusted_R2_def Let_def mean_def total_sum_of_squares_def)
  also have "\<dots> = 1 - (1 - (\<Sum>f\<leftarrow>mat_vec ?X ?beta. (f - mean y)\<^sup>2) / total_sum_of_squares y) *
          (real_of_int (int ?n - 1) / real_of_int (int ?n - int ?p - 1))"
    by (simp only: p q)
  also have "\<dots> = r"
    by (simp only: r fv R_2_adj_def)
  finally have "r = spec_adjusted_R2 ?X ?beta y"
    by simp
  with i n show ?thesis
    by blast
qed

theorem score_is_adjusted_R2_witness:
  "\<exists>XtX_inv.
     la_inv (example_lib (\<lambda>xs. xs))
       (normal_matrix twin_data (current_model_of (example_lib (\<lambda>xs. xs)) [] ''x2'')) = Some XtX_inv \<and>
     107 / 111 = spec_adjusted_R2 (design_X twin_data (current_model_of (example_lib (\<lambda>xs. xs)) [] ''x2''))
       (mat_vec (mat_mul (length [1, 2, 3, 4, 5 :: real]) XtX_inv
          (mat_T (n_predictors twin_data (current_model_of (example_lib (\<lambda>xs. xs)) [] ''x2'') + 1)
             (design_X twin_data (current_model_of (example_lib (\<lambda>xs. xs)) [] ''x2'')))) [1, 2, 3, 4, 5])
       [1, 2, 3, 4, 5]"
proof -
  have w: "wf_frame twin_data"
    by (simp add: wf_frame_def twin_data_def)
  have y: "map_of (cols twin_data) ''y'' = Some [1, 2, 3, 4, 5]"
    by (simp add: twin_data_def)
  have m: "(107 / 111, ''x2'') \<in> set [(107 / 111 :: real, ''x1''), (107 / 111, ''x2'')]"
    by simp
  from score_is_adjusted_R2 [OF w y twin_scores m] show ?thesis
    by blast
qed

subsection \<open>C9: the interaction columns\<close>

lemma split_on_plain: "c \<notin> set a \<Longrightarrow> split_on c a = [a]"
  by (induction a) auto

lemma split_on_append: "c \<notin> set a \<Longrightarrow> split_on c (a @ c # rest) = a # split_on c rest"
  by (induction a) auto

lemma split_join:
  "ns \<noteq> [] \<Longrightarrow> \<forall>n \<in> set ns. \<not> has_star n \<Longrightarrow> split_star (join_star ns) = ns"
proof (induction ns rule: join_star.induct)
  case 1
  then show ?case
    by simp
next
  case (2 a)
  then show ?case
    by (simp add: split_star_def has_star_def split_on_plain)
next
  case (3 a b bs)
  then show ?case
    by (simp add: split_star_def has_star_def split_on_append)
qed

lemma join_has_star: "2 \<le> length ns \<Longrightarrow> has_star (join_star ns)"
  by (cases ns rule: join_star.cases) (auto simp: has_star_def)

lemma join_star_inj:
  assumes "join_star xs = join_star ys" and "xs \<noteq> []" and "ys \<noteq> []"
    and "\<forall>n \<in> set xs. \<not> has_star n" and "\<forall>n \<in> set ys. \<not> has_star n"
  shows "xs = ys"
proof -
  have "xs = split_star (join_star xs)"
    using assms(2,4) by (simp add: split_join)
  also have "\<dots> = split_star (join_star ys)"
    by (simp only: assms(1))
  also have "\<dots> = ys"
    using assms(3,5) by (simp add: split_join)
  finally show ?thesis .
qed

lemma combinations_elem:
  "comb \<in> set (combinations xs k) \<Longrightarrow> length comb = k \<and> set comb \<subseteq> set xs"
proof (induction xs k arbitrary: comb rule: combinations.induct)
  case (3 x xs k)
  from 3(3) consider c where "comb = x # c" and "c \<in> set (combinations xs k)"
    | "comb \<in> set (combinations xs (Suc k))"
    by auto
  then show ?case
  proof cases
    case 1
    with 3(1) [of c] show ?thesis
      by auto
  next
    case 2
    with 3(2) [of comb] show ?thesis
      by auto
  qed
qed auto

lemma combinations_distinct_elem:
  "distinct xs \<Longrightarrow> comb \<in> set (combinations xs k) \<Longrightarrow> distinct comb"
proof (induction xs k arbitrary: comb rule: combinations.induct)
  case (3 x xs k)
  from 3(4) consider c where "comb = x # c" and "c \<in> set (combinations xs k)"
    | "comb \<in> set (combinations xs (Suc k))"
    by auto
  then show ?case
  proof cases
    case 1
    from 1(2) have "set c \<subseteq> set xs"
      by (simp add: combinations_elem)
    with 3(3) have "x \<notin> set c"
      by auto
    moreover from 3(1) [OF _ 1(2)] 3(3) have "distinct c"
      by simp
    ultimately show ?thesis
      by (simp add: 1(1))
  next
    case 2
    with 3(2) 3(3) show ?thesis
      by simp
  qed
qed auto

lemma distinct_combinations: "distinct xs \<Longrightarrow> distinct (combinations xs k)"
proof (induction xs k rule: combinations.induct)
  case (3 x xs k)
  have "x # c \<notin> set (combinations xs (Suc k))" for c
  proof
    assume "x # c \<in> set (combinations xs (Suc k))"
    then have "set (x # c) \<subseteq> set xs"
      by (simp only: combinations_elem)
    with 3(3) show False
      by simp
  qed
  then have "set (map ((#) x) (combinations xs k)) \<inter> set (combinations xs (Suc k)) = {}"
    by auto
  with 3 show ?case
    by (simp add: distinct_map)
qed auto

lemma combinations_one: "combinations xs (Suc 0) = map (\<lambda>x. [x]) xs"
  by (induction xs) auto

lemma distinct_combinations_range:
  assumes "distinct xs"
  shows "distinct (concat (map (combinations xs) [a..<b]))"
proof (induction b)
  case 0
  show ?case
    by simp
next
  case (Suc b)
  show ?case
  proof (cases "a \<le> b")
    case False
    then show ?thesis
      by simp
  next
    case True
    have "c \<notin> set (combinations xs b)" if "c \<in> set (concat (map (combinations xs) [a..<b]))" for c
    proof -
      from that obtain i where "i < b" and "c \<in> set (combinations xs i)"
        by auto
      then have "length c \<noteq> b"
        using combinations_elem [of c xs i] by simp
      then show ?thesis
        using combinations_elem [of c xs b] by blast
    qed
    then have "set (concat (map (combinations xs) [a..<b])) \<inter> set (combinations xs b) = {}"
      by blast
    with True Suc distinct_combinations [OF assms, of b] show ?thesis
      by simp
  qed
qed

lemma filter_items_values:
  "set comb \<subseteq> set (columns df) \<Longrightarrow>
   map (\<lambda>c. snd c ! i) (cols (filter_items df comb)) = map (\<lambda>c. column_value df c i) comb"
proof (induction comb)
  case Nil
  show ?case
    by (simp add: filter_items_def)
next
  case (Cons r comb)
  from Cons.prems have "r \<in> fst ` set (cols df)"
    by (simp add: columns_def)
  then obtain v where v: "map_of (cols df) r = Some v"
    by (cases "map_of (cols df) r") (auto simp: map_of_eq_None_iff)
  from Cons have "map (\<lambda>c. snd c ! i) (cols (filter_items df comb)) =
      map (\<lambda>c. column_value df c i) comb"
    by simp
  then show ?case
    by (simp add: filter_items_def v column_value_def)
qed

lemma product_axis1_filter_items:
  assumes "set comb \<subseteq> set (columns df)"
  shows "product_axis1 (filter_items df comb) =
           map (\<lambda>i. prod_list (map (\<lambda>c. column_value df c i) comb)) [0..<nrows df]"
proof -
  have "nrows (filter_items df comb) = nrows df"
    by (simp add: filter_items_def)
  then show ?thesis
    by (simp add: product_axis1_def to_numpy_def filter_items_values [OF assms])
qed

lemma filter_items_cong:
  assumes "nrows F = nrows df" and "\<forall>c \<in> set items. map_of (cols F) c = map_of (cols df) c"
  shows "filter_items F items = filter_items df items"
proof -
  have "map (\<lambda>r. case map_of (cols F) r of None \<Rightarrow> [] | Some c \<Rightarrow> [(r, c)]) items =
        map (\<lambda>r. case map_of (cols df) r of None \<Rightarrow> [] | Some c \<Rightarrow> [(r, c)]) items"
    using assms(2) by (intro map_cong) simp_all
  then have "cols (filter_items F items) = cols (filter_items df items)"
    unfolding filter_items_def by (simp only: frame.simps)
  with assms(1) show ?thesis
    by (simp add: filter_items_def)
qed

lemma set_column_same:
  assumes "distinct (columns F)" and "(x, v) \<in> set (cols F)"
  shows "set_column F x v = F"
proof -
  have "(if fst c = x then (x, v) else c) = c" if "c \<in> set (cols F)" for c
  proof (cases "fst c = x")
    case True
    with assms that have "snd c = v"
      by (metis columns_def eq_key_imp_eq_value prod.collapse)
    with True show ?thesis
      by auto
  next
    case False
    then show ?thesis
      by simp
  qed
  then have "map (\<lambda>c. if fst c = x then (x, v) else c) (cols F) = cols F"
    by (simp add: map_idI)
  moreover from assms(2) have "x \<in> set (columns F)"
    by (force simp: columns_def)
  ultimately show ?thesis
    by (simp add: set_column_def)
qed

lemma single_product:
  assumes "wf_frame F" and "distinct (columns F)" and "(x, v) \<in> set (cols F)"
  shows "product_axis1 (filter_items F [x]) = v"
proof -
  from assms(2,3) have m: "map_of (cols F) x = Some v"
    by (simp add: columns_def)
  from assms(1,3) have l: "length v = nrows F"
    by (auto simp: wf_frame_def)
  have "product_axis1 (filter_items F [x]) = map (\<lambda>i. v ! i) [0..<nrows F]"
    by (simp add: product_axis1_def to_numpy_def filter_items_def m)
  also have "\<dots> = v"
    unfolding l [symmetric] by (rule map_nth)
  finally show ?thesis .
qed

lemma add_products_singletons:
  assumes "wf_frame F" and "distinct (columns F)"
    and "set xs \<subseteq> set (columns F)" and "\<forall>x \<in> set xs. \<not> has_star x"
  shows "add_products F xs = F"
  using assms(3,4)
proof (induction xs)
  case Nil
  show ?case
    by simp
next
  case (Cons x xs)
  from Cons.prems obtain v where v: "(x, v) \<in> set (cols F)"
    by (auto simp: columns_def)
  from Cons.prems have sp: "split_star x = [x]"
    by (simp add: split_star_def has_star_def split_on_plain)
  have "set_column F x (product_axis1 (filter_items F (split_star x))) = F"
    by (simp add: sp single_product [OF assms(1,2) v] set_column_same [OF assms(2) v])
  with Cons show ?case
    by (simp add: sp)
qed

lemma add_products_append:
  "add_products F (xs @ ys) = add_products (add_products F xs) ys"
  by (induction xs arbitrary: F) simp_all

lemma interaction_columns_Cons:
  "interaction_columns df (comb # combs) =
     (join_star comb, map (\<lambda>i. prod_list (map (\<lambda>c. column_value df c i) comb)) [0..<nrows df]) #
     interaction_columns df combs"
  by (simp add: interaction_columns_def)

lemma add_products_interactions:
  assumes "\<forall>c \<in> set (columns df). \<not> has_star c"
    and "nrows F = nrows df" and "cols F = cols df @ extra"
    and "\<forall>comb \<in> set combs. 2 \<le> length comb \<and> set comb \<subseteq> set (columns df)"
    and "distinct (map join_star combs)"
    and "set (map join_star combs) \<inter> fst ` set extra = {}"
  shows "add_products F (map join_star combs) = F\<lparr>cols := cols F @ interaction_columns df combs\<rparr>"
  using assms(2-)
proof (induction combs arbitrary: F extra)
  case Nil
  show ?case
    by (simp add: interaction_columns_def)
next
  case (Cons comb combs)
  let ?name = "join_star comb"
  let ?v = "map (\<lambda>i. prod_list (map (\<lambda>c. column_value df c i) comb)) [0..<nrows df]"
  from Cons.prems(3) have len: "2 \<le> length comb" and sub: "set comb \<subseteq> set (columns df)"
    by simp_all
  from len have ne: "comb \<noteq> []"
    by auto
  from sub assms(1) have plain: "\<forall>n \<in> set comb. \<not> has_star n"
    by blast
  have sp: "split_star ?name = comb"
    using ne plain by (rule split_join)
  have agree: "\<forall>c \<in> set comb. map_of (cols F) c = map_of (cols df) c"
  proof
    fix c
    assume "c \<in> set comb"
    with sub have "c \<in> fst ` set (cols df)"
      by (auto simp: columns_def)
    then show "map_of (cols F) c = map_of (cols df) c"
      by (simp add: Cons.prems(2) map_add_dom_app_simps(1) dom_map_of_conv_image_fst)
  qed
  have v: "product_axis1 (filter_items F comb) = ?v"
    by (simp only: filter_items_cong [OF Cons.prems(1) agree] product_axis1_filter_items [OF sub])
  have "has_star ?name"
    using len by (rule join_has_star)
  with assms(1) have "?name \<notin> set (columns df)"
    by blast
  moreover from Cons.prems(5) have "?name \<notin> fst ` set extra"
    by auto
  ultimately have fresh: "?name \<notin> set (columns F)"
    by (simp add: columns_def Cons.prems(2))
  let ?F = "F\<lparr>cols := cols F @ [(?name, ?v)]\<rparr>"
  have step: "add_products F (map join_star (comb # combs)) = add_products ?F (map join_star combs)"
    using ne fresh by (simp add: v set_column_def sp)
  have "add_products ?F (map join_star combs) = ?F\<lparr>cols := cols ?F @ interaction_columns df combs\<rparr>"
  proof (rule Cons.IH [where extra = "extra @ [(?name, ?v)]"])
    show "nrows ?F = nrows df"
      using Cons.prems(1) by simp
    show "cols ?F = cols df @ extra @ [(?name, ?v)]"
      using Cons.prems(2) by simp
    show "\<forall>comb \<in> set combs. 2 \<le> length comb \<and> set comb \<subseteq> set (columns df)"
      using Cons.prems(3) by simp
    show "distinct (map join_star combs)"
      using Cons.prems(4) by simp
    show "set (map join_star combs) \<inter> fst ` set (extra @ [(?name, ?v)]) = {}"
      using Cons.prems(4,5) by auto
  qed
  then show ?case
    unfolding step by (simp add: interaction_columns_Cons)
qed

lemma columns_drop_column:
  "columns (drop_column F response) = filter (\<lambda>c. c \<noteq> response) (columns F)"
  by (simp add: columns_def drop_column_def filter_map comp_def)

lemma name_combinations_split:
  assumes "0 < k"
  shows "name_combinations F response (k + 1) =
           filter (\<lambda>c. c \<noteq> response) (columns F) @
           map join_star (concat (map (combinations (filter (\<lambda>c. c \<noteq> response) (columns F)))
                                      [2..<nat k + 2]))"
proof -
  let ?names = "filter (\<lambda>c. c \<noteq> response) (columns F)"
  from assms have n: "nat (k + 1 + 1) = nat k + 2"
    by simp
  have a: "[1..<nat k + 2] = 1 # [Suc 1..<nat k + 2]"
    by (rule upt_conv_Cons) simp
  have b: "Suc 1 = 2"
    by simp
  have "[1..<nat (k + 1 + 1)] = 1 # [2..<nat k + 2]"
    using a unfolding b n .
  moreover have "map join_star (combinations ?names 1) = ?names"
    by (simp add: combinations_one comp_def)
  ultimately show ?thesis
    by (simp add: name_combinations_def columns_drop_column map_concat comp_def)
qed

lemma interaction_combinations_elem:
  assumes "distinct (columns df)" and "comb \<in> set (interaction_combinations df response k)"
  shows "distinct comb" and "set comb \<subseteq> set (non_response_columns df response)"
    and "2 \<le> length comb" and "int (length comb) \<le> k + 1"
proof -
  from assms(2) obtain cs where
    "cs \<in> set (map (combinations (non_response_columns df response)) [2..<nat k + 2])"
    and cs: "comb \<in> set cs"
    unfolding interaction_combinations_def set_concat by blast
  then obtain i where "i \<in> set [2..<nat k + 2]"
    and "cs = combinations (non_response_columns df response) i"
    unfolding set_map by blast
  with cs have i: "2 \<le> i" "i < nat k + 2"
    and c: "comb \<in> set (combinations (non_response_columns df response) i)"
    by (simp_all only: set_upt atLeastLessThan_iff)
  from assms(1) have "distinct (non_response_columns df response)"
    by (simp add: non_response_columns_def)
  then show "distinct comb"
    using c by (rule combinations_distinct_elem)
  from combinations_elem [OF c] i
  show "set comb \<subseteq> set (non_response_columns df response)"
    and "2 \<le> length comb" and "int (length comb) \<le> k + 1"
    by auto
qed

lemma gen_interaction_df_expands:
  assumes "wf_frame (frames st df)" and "distinct (columns (frames st df))"
    and "\<forall>c \<in> set (columns (frames st df)). \<not> has_star c"
    and "response \<in> set (columns (frames st df))"
    and "0 < k"
  shows "gen_interaction_df st df response (k + 1) =
    (st\<lparr>frames := (frames st)
          (next_ref st := (frames st df)\<lparr>cols := cols (frames st df) @
              interaction_columns (frames st df)
                (interaction_combinations (frames st df) response k)\<rparr>),
        next_ref := Suc (next_ref st)\<rparr>,
     Inr (next_ref st))"
    and "distinct (columns (frames st df) @
           map join_star (interaction_combinations (frames st df) response k))"
proof -
  let ?F = "frames st df"
  let ?names = "non_response_columns ?F response"
  let ?combs = "interaction_combinations ?F response k"
  have names: "set ?names \<subseteq> set (columns ?F)" "\<forall>x \<in> set ?names. \<not> has_star x"
    using assms(3) by (auto simp: non_response_columns_def)
  have elems: "\<forall>comb \<in> set ?combs. 2 \<le> length comb \<and> set comb \<subseteq> set (columns ?F)"
    using interaction_combinations_elem(2,3) [OF assms(2), of _ response k] names(1) by blast
  have "distinct ?names"
    using assms(2) by (simp add: non_response_columns_def)
  then have dc: "distinct ?combs"
    unfolding interaction_combinations_def by (rule distinct_combinations_range)
  have "inj_on join_star (set ?combs)"
  proof (rule inj_onI)
    fix xs ys
    assume "xs \<in> set ?combs" "ys \<in> set ?combs" "join_star xs = join_star ys"
    with elems assms(3) show "xs = ys"
      by (intro join_star_inj) auto
  qed
  with dc have dj: "distinct (map join_star ?combs)"
    by (simp add: distinct_map)
  have stars: "\<forall>n \<in> set (map join_star ?combs). has_star n"
    using elems by (auto intro: join_has_star)
  with assms(2,3) dj show "distinct (columns ?F @ map join_star ?combs)"
    by auto
  have split: "name_combinations ?F response (k + 1) = ?names @ map join_star ?combs"
    using name_combinations_split [OF assms(5), of ?F response]
    by (simp add: non_response_columns_def interaction_combinations_def)
  have "add_products ?F (name_combinations ?F response (k + 1)) =
      add_products ?F (map join_star ?combs)"
    unfolding split add_products_append
    by (simp only: add_products_singletons [OF assms(1,2) names])
  also have "\<dots> = ?F\<lparr>cols := cols ?F @ interaction_columns ?F ?combs\<rparr>"
    by (rule add_products_interactions [OF assms(3) _ _ elems dj, where extra = "[]"]) simp_all
  finally have "add_products ?F (name_combinations ?F response (k + 1)) =
      ?F\<lparr>cols := cols ?F @ interaction_columns ?F ?combs\<rparr>" .
  with assms(4,5) show "gen_interaction_df st df response (k + 1) =
    (st\<lparr>frames := (frames st)
          (next_ref st := ?F\<lparr>cols := cols ?F @ interaction_columns ?F ?combs\<rparr>),
        next_ref := Suc (next_ref st)\<rparr>,
     Inr (next_ref st))"
    by (simp add: gen_interaction_df_def copy_frame_def)
qed

text \<open>
  C9 as the code has it, for a rectangular frame with unique column names none of which
  contains \<open>*\<close>, and a response that is one of its columns. With
  \<^verbatim>\<open>interaction_degree = 0\<close>, \<^verbatim>\<open>gen_model\<close> searches the frame it was given. With
  \<^verbatim>\<open>interaction_degree = k > 0\<close> it searches a new frame: the input frame is as it was,
  the new frame has the same rows, its columns are the original ones, unchanged and in
  place, followed by one column for each combination of \<open>2\<close> up to \<open>k + 1\<close> distinct
  columns other than the response (the joined names, the row-wise products), and no
  name occurs twice.
\<close>

theorem interaction_expansion:
  assumes "wf_frame (frames st df)" and "distinct (columns (frames st df))"
    and "\<forall>c \<in> set (columns (frames st df)). \<not> has_star c"
    and "response \<in> set (columns (frames st df))"
    and "0 < k" and "df < next_ref st"
  shows "gen_model L st h df response max_vars force_in 0 =
           map_option (\<lambda>(h1, r). (st, h1, r))
             (forward_selected L h (frames st df) response force_in max_vars) \<and>
         (\<exists>st'. gen_interaction_df st df response (k + 1) = (st', Inr (next_ref st)) \<and>
            gen_model L st h df response max_vars force_in k =
              map_option (\<lambda>(h1, r). (st', h1, r))
                (forward_selected L h (frames st' (next_ref st)) response force_in max_vars) \<and>
            frames st' df = frames st df \<and>
            nrows (frames st' (next_ref st)) = nrows (frames st df) \<and>
            cols (frames st' (next_ref st)) =
              cols (frames st df) @
              interaction_columns (frames st df) (interaction_combinations (frames st df) response k) \<and>
            distinct (columns (frames st' (next_ref st))) \<and>
            (\<forall>comb \<in> set (interaction_combinations (frames st df) response k).
               distinct comb \<and> set comb \<subseteq> set (non_response_columns (frames st df) response) \<and>
               2 \<le> length comb \<and> int (length comb) \<le> k + 1))"
proof -
  let ?F = "frames st df"
  let ?combs = "interaction_combinations ?F response k"
  let ?new = "?F\<lparr>cols := cols ?F @ interaction_columns ?F ?combs\<rparr>"
  let ?st = "st\<lparr>frames := (frames st)(next_ref st := ?new), next_ref := Suc (next_ref st)\<rparr>"
  note e = gen_interaction_df_expands [OF assms(1-5)]
  have zero: "gen_model L st h df response max_vars force_in 0 =
           map_option (\<lambda>(h1, r). (st, h1, r))
             (forward_selected L h (frames st df) response force_in max_vars)"
    by (simp add: gen_model_def)
  have g: "gen_model L st h df response max_vars force_in k =
      map_option (\<lambda>(h1, r). (?st, h1, r))
        (forward_selected L h (frames ?st (next_ref st)) response force_in max_vars)"
    using assms(5) by (simp add: gen_model_def e(1))
  have same: "frames ?st df = frames st df"
    using assms(6) by simp
  have n: "nrows (frames ?st (next_ref st)) = nrows ?F"
    and c: "cols (frames ?st (next_ref st)) = cols ?F @ interaction_columns ?F ?combs"
    by simp_all
  have "columns (frames ?st (next_ref st)) = columns ?F @ map join_star ?combs"
    by (simp add: columns_def interaction_columns_def comp_def)
  with e(2) have d: "distinct (columns (frames ?st (next_ref st)))"
    by simp
  have el: "\<forall>comb \<in> set ?combs.
      distinct comb \<and> set comb \<subseteq> set (non_response_columns ?F response) \<and>
      2 \<le> length comb \<and> int (length comb) \<le> k + 1"
    using interaction_combinations_elem [OF assms(2), of _ response k] by blast
  from e(1) g same n c d el have
    "\<exists>st'. gen_interaction_df st df response (k + 1) = (st', Inr (next_ref st)) \<and>
            gen_model L st h df response max_vars force_in k =
              map_option (\<lambda>(h1, r). (st', h1, r))
                (forward_selected L h (frames st' (next_ref st)) response force_in max_vars) \<and>
            frames st' df = frames st df \<and>
            nrows (frames st' (next_ref st)) = nrows (frames st df) \<and>
            cols (frames st' (next_ref st)) =
              cols (frames st df) @
              interaction_columns (frames st df) (interaction_combinations (frames st df) response k) \<and>
            distinct (columns (frames st' (next_ref st))) \<and>
            (\<forall>comb \<in> set (interaction_combinations (frames st df) response k).
               distinct comb \<and> set comb \<subseteq> set (non_response_columns (frames st df) response) \<and>
               2 \<le> length comb \<and> int (length comb) \<le> k + 1)"
    by (intro exI [of _ ?st] conjI)
  with zero show ?thesis
    by (rule conjI)
qed

lemma plain_interaction_columns:
  "interaction_columns plain_data (interaction_combinations plain_data ''y'' 1) =
     [(''a*b'', [10, 21]), (''a*c'', [2, 6]), (''b*c'', [5, 14])]"
  by code_simp

theorem interaction_expansion_witness:
  "\<exists>st'. gen_interaction_df plain_store 0 ''y'' (1 + 1) = (st', Inr 1) \<and>
     frames st' 0 = plain_data \<and>
     cols (frames st' 1) =
       [(''y'', [1, 1]), (''a'', [2, 3]), (''b'', [5, 7]), (''c'', [1, 2]),
        (''a*b'', [10, 21]), (''a*c'', [2, 6]), (''b*c'', [5, 14])] \<and>
     distinct (columns (frames st' 1))"
proof -
  have f: "frames plain_store 0 = plain_data" and x: "next_ref plain_store = 1"
    by (simp_all add: plain_store_def)
  have w: "wf_frame (frames plain_store 0)"
    by (simp add: f wf_frame_def plain_data_def)
  have d: "distinct (columns (frames plain_store 0))"
    by (simp add: f columns_def plain_data_def)
  have n: "\<forall>c \<in> set (columns (frames plain_store 0)). \<not> has_star c"
    by (simp add: f columns_def plain_data_def has_star_def)
  have r: "''y'' \<in> set (columns (frames plain_store 0))"
    by (simp add: f columns_def plain_data_def)
  have c: "cols plain_data = [(''y'', [1, 1]), (''a'', [2, 3]), (''b'', [5, 7]), (''c'', [1, 2])]"
    by (simp add: plain_data_def)
  have k: "(0 :: int) < 1" and a: "0 < next_ref plain_store"
    by (simp_all add: x)
  from interaction_expansion [OF w d n r k a, where L = "example_lib (\<lambda>xs. xs)"
      and h = heap_at_import and max_vars = 5 and force_in = 0]
  show ?thesis
    unfolding f x plain_interaction_columns c by auto
qed

text \<open>
  C9 as stated fails for a frame with the columns \<open>a\<close>, \<open>b\<close> and \<open>a*b\<close>: the name
  \<open>a*b\<close> is split into \<open>a\<close> and \<open>b\<close>, and the original column \<open>a*b\<close>, of value \<open>7\<close>,
  is overwritten by the product \<open>2 * 3\<close>.
\<close>

theorem star_column_overwritten:
  "snd (gen_interaction_df starred_store 0 ''y'' (1 + 1)) = Inr 1 \<and>
   map_of (cols (frames starred_store 0)) ''a*b'' = Some [7] \<and>
   map_of (cols (frames (fst (gen_interaction_df starred_store 0 ''y'' (1 + 1))) 1)) ''a*b'' = Some [6]"
  by code_simp

end
